theory Spec2Isabelle
  imports Main "HOL-Library.Sublist" "HOL-Library.AList" "HOL-Library.Char_ord"
    "HOL-Library.List_Lexorder" "HOL-Library.Product_Lexorder"
begin

section \<open>Errors and configuration\<close>

text \<open>
  The exceptions the operations raise, by their Python class. An operation that can raise
  returns \<open>Inl\<close> of the exception.
\<close>

datatype error = PermissionError | FileNotFoundError | FileExistsError | NotADirectoryError
  | IsADirectoryError | SameFileError | OSError | ValueError | TypeError
  | UnicodeEncodeError | BrokenPipeError

text \<open>
  A \<open>pathlib.Path\<close> that is absolute: the list of its components after the root, so that
  \<open>[]\<close> is \<open>/\<close> and \<open>[''proj'', ''a.txt'']\<close> is \<open>/proj/a.txt\<close>.
\<close>

type_synonym fpath = "string list"

text \<open>
  \<open>AgentConfig\<close> after \<open>resolve()\<close>: the project root is absolute and free of dot
  segments. The fields of the language-model client are left out.
\<close>

record AgentConfig =
  project_root :: fpath
  backup_dir :: "fpath option"
  allow_shell :: bool
  shell :: string
  max_read_bytes :: int
  allow_patterns :: "string list"
  deny_patterns :: "string list"

text \<open>The default configuration, resolved for the project root \<open>/proj\<close>.\<close>

definition cfg0 :: AgentConfig where
  "cfg0 = \<lparr>project_root = [''proj''], backup_dir = Some [''proj'', ''.ai_agent_backups''],
     allow_shell = True, shell = ''bash'', max_read_bytes = 2000000,
     allow_patterns = [''**/*''],
     deny_patterns = [''.git/**'', ''**/.git/**'', ''**/node_modules/**'', ''.env'', ''**/.env*'']\<rparr>"

text \<open>The same configuration with the shell not allowed.\<close>

definition cfg_no_shell :: AgentConfig where
  "cfg_no_shell = cfg0\<lparr>allow_shell := False\<rparr>"

section \<open>Strings\<close>

text \<open>
  Path names, glob patterns, diff text and shell lines are values of \<^typ>\<open>string\<close>: the
  character \<open>c\<close> stands for the code point \<open>of_char c\<close>, so these texts range over the
  code points U+0000 to U+00FF. File contents handed to \<open>fs.write\<close> and returned by
  \<open>fs.read\<close> are lists of arbitrary code points (see the section on UTF-8).
\<close>

definition startswith :: "string \<Rightarrow> string \<Rightarrow> bool" where
  "startswith s p = prefix p s"

text \<open>\<open>str.isspace\<close> on the code points below U+0100.\<close>

definition is_space :: "char \<Rightarrow> bool" where
  "is_space c = (of_char c \<in> {9, 10, 11, 12, 13, 28, 29, 30, 31, 32, 133, 160 :: nat})"

definition strip :: "string \<Rightarrow> string" where
  "strip s = rev (dropWhile is_space (rev (dropWhile is_space s)))"

text \<open>
  \<open>io.StringIO(text)\<close> with the default \<open>newline\<close> splits at \<open>\n\<close> only and keeps it.
  The stream is the text that is still unread: \<open>readline\<close> returns the next line and the
  rest of the stream, and the empty line at the end of the stream.
\<close>

fun readline :: "string \<Rightarrow> string \<times> string" where
  "readline [] = ([], [])"
| "readline (c # cs) =
     (if c = CHR 0x0A then ([c], cs)
      else (case readline cs of (l, r) \<Rightarrow> (c # l, r)))"

lemma readline_rest_le: "length (snd (readline s)) \<le> length s"
  by (induction s) (auto split: prod.splits)

lemma readline_rest_less: "s \<noteq> [] \<Longrightarrow> length (snd (readline s)) < length s"
  using readline_rest_le [of "tl s"] by (cases s) (auto split: prod.splits)

lemma readline_rest_measure: "s \<noteq> [] \<Longrightarrow> readline s = (l, r) \<Longrightarrow> length r < length s"
  using readline_rest_less [of s] by simp

lemma readline_nonempty: "readline s = (l, r) \<Longrightarrow> l \<noteq> [] \<Longrightarrow> s \<noteq> []"
  by (cases s) auto

function readlines :: "string \<Rightarrow> string list" where
  "readlines s = (if s = [] then [] else (case readline s of (l, r) \<Rightarrow> l # readlines r))"
  by pat_completeness auto
termination
  by (relation "measure length") (auto dest: readline_rest_measure [OF _ sym])

declare readlines.simps [simp del]

section \<open>DiffEngine: \<open>EditTool._patch\<close>\<close>

text \<open>
  The loop that skips header lines: it reads lines until the stream ends (the line is
  empty) or a line starts with \<open>@@\<close>. It returns that last line and the stream after it.
\<close>

function skip_header :: "string \<Rightarrow> string \<times> string" where
  "skip_header s =
     (case readline s of (line, r) \<Rightarrow>
        if line = [] then (line, r)
        else if startswith line ''@@'' then (line, r)
        else skip_header r)"
  by pat_completeness auto
termination
  by (relation "measure length")
    (auto dest!: sym [of _ "readline _"] dest: readline_rest_measure readline_nonempty)

declare skip_header.simps [simp del]

text \<open>
  The classification loop. The source has it twice, with the same body, once over
  \<open>s.readlines()\<close> after \<open>s.seek(0)\<close> and once over \<open>[line] + s.readlines()\<close>;
  \<open>new\<close> is the list built by \<open>new.append\<close>.
\<close>

fun rebuild :: "string list \<Rightarrow> string list \<Rightarrow> string list" where
  "rebuild [] new = new"
| "rebuild (l # ls) new =
     (if startswith l ''@@'' then rebuild ls new
      else if startswith l ''+'' \<and> \<not> startswith l ''+++'' then rebuild ls (new @ [drop 1 l])
      else if startswith l ''-'' \<and> \<not> startswith l ''---'' then rebuild ls new
      else if startswith l (CHR 0x5C # '' No newline'') then rebuild ls new
      else if startswith l ''---'' \<or> startswith l ''+++'' then rebuild ls new
      else rebuild ls (new @ [if startswith l '' '' then drop 1 l else l]))"

text \<open>
  \<open>_patch(old_lines, diff_text)\<close>, here \<open>patch\<close>; \<open>None\<close> is Python's \<open>None\<close>. The
  lines of the original file are lists of code points. The copy \<open>patched = old_lines[:]\<close>
  is never read, and nothing in the body raises, so the \<open>except\<close> clause is not taken.
\<close>

definition patch :: "nat list list \<Rightarrow> string \<Rightarrow> string list option" where
  "patch old_lines diff_text =
     (if diff_text = [] \<or> strip diff_text = [] then None
      else (case skip_header diff_text of (line, rest) \<Rightarrow>
        if line = [] then
          (let new = rebuild (readlines diff_text) [] in if new \<noteq> [] then Some new else None)
        else Some (rebuild (line # readlines rest) [])))"

text \<open>
  Lines of a diff text. A line is terminated when it ends with its only \<open>\n\<close>; a text is
  the concatenation of terminated lines, the last of which may lack the \<open>\n\<close>. A body
  line is an insertion or a context line by its first characters, as the classification
  loop tells them apart.
\<close>

definition terminated :: "string \<Rightarrow> bool" where
  "terminated l = (l \<noteq> [] \<and> last l = CHR 0x0A \<and> CHR 0x0A \<notin> set (butlast l))"

fun text_lines :: "string list \<Rightarrow> bool" where
  "text_lines [] = True"
| "text_lines [l] = (l \<noteq> [] \<and> CHR 0x0A \<notin> set (butlast l))"
| "text_lines (l # ls) = (terminated l \<and> text_lines ls)"

definition is_insertion :: "string \<Rightarrow> bool" where
  "is_insertion l = (startswith l ''+'' \<and> \<not> startswith l ''+++'')"

definition is_context :: "string \<Rightarrow> bool" where
  "is_context l = startswith l '' ''"

section \<open>ShellSessionManager: \<open>ShellSession\<close> and \<open>TerminalTool\<close>\<close>

text \<open>
  A subprocess as the tool sees it: whether it still runs (\<open>poll() is None\<close>), the text
  written to its input so far, and the lines it has written to its merged output that the
  session's reader thread has not taken yet.
\<close>

record process =
  alive :: bool
  stdin :: "string list"
  stdout :: "string list"

text \<open>
  A \<open>ShellSession\<close>: \<open>proc\<close> is the handle of its subprocess, an index into the table
  of processes, and \<open>q\<close> is the content of its \<open>queue.Queue\<close>, oldest line first.
\<close>

record ShellSession =
  session_id :: string
  proc :: nat
  q :: "string list"

text \<open>
  The state the \<open>TerminalTool\<close> acts on: its dictionary \<open>sessions\<close>, the processes
  started so far (\<open>subprocess.Popen\<close> appends one), and the programs that can be started.
\<close>

record TerminalTool =
  sessions :: "string \<rightharpoonup> ShellSession"
  procs :: "process list"
  programs :: "string list"

text \<open>The dictionaries returned: \<open>{"ok": True}\<close>, \<open>{"ok": True, "existing": True}\<close>
  and \<open>{"output": text}\<close>.\<close>

datatype reply = Ok | OkExisting | Output string

text \<open>\<open>subprocess.Popen([cfg.shell], ...)\<close> raises \<open>FileNotFoundError\<close> when the shell
  cannot be started.\<close>

definition Popen :: "AgentConfig \<Rightarrow> TerminalTool \<Rightarrow> (error + nat) \<times> TerminalTool" where
  "Popen cfg w =
     (if shell cfg \<in> set (programs w)
      then (Inr (length (procs w)),
            w\<lparr>procs := procs w @ [\<lparr>alive = True, stdin = [], stdout = []\<rparr>]\<rparr>)
      else (Inl FileNotFoundError, w))"

text \<open>\<open>ShellSession.__init__\<close>: the process is started and the queue is empty.\<close>

definition new_session :: "AgentConfig \<Rightarrow> string \<Rightarrow> TerminalTool \<Rightarrow> (error + ShellSession) \<times> TerminalTool" where
  "new_session cfg sid w =
     (case Popen cfg w of
        (Inl e, w') \<Rightarrow> (Inl e, w')
      | (Inr pid, w') \<Rightarrow> (Inr \<lparr>session_id = sid, proc = pid, q = []\<rparr>, w'))"

text \<open>
  One iteration of \<open>_pump\<close>, the loop \<open>for line in self.proc.stdout: self.q.put(line)\<close>
  of the reader thread: the oldest line of the output goes to the end of the queue.
\<close>

definition pump :: "string list \<Rightarrow> ShellSession \<Rightarrow> string list \<times> ShellSession" where
  "pump out s = (case out of [] \<Rightarrow> (out, s) | line # rest \<Rightarrow> (rest, s\<lparr>q := q s @ [line]\<rparr>))"

text \<open>
  \<open>send\<close>: \<open>self.proc\<close> and \<open>self.proc.stdin\<close> are set by \<open>__init__\<close> and never
  cleared, so the guard that raises \<open>RuntimeError\<close> does not fire; writing to the input
  of a process that has exited raises \<open>BrokenPipeError\<close>.
\<close>

definition send :: "ShellSession \<Rightarrow> string \<Rightarrow> TerminalTool \<Rightarrow> (error + unit) \<times> TerminalTool" where
  "send s command w =
     (if proc s < length (procs w) \<and> alive (procs w ! proc s)
      then (Inr (), w\<lparr>procs := (procs w)[proc s :=
              (procs w ! proc s)\<lparr>stdin := stdin (procs w ! proc s) @ [command @ [CHR 0x0A]]\<rparr>]\<rparr>)
      else (Inl BrokenPipeError, w))"

text \<open>
  The loop of \<open>ShellSession.read\<close>,
  \<open>while not self.q.empty() and len(lines) < max_lines: lines.append(self.q.get_nowait())\<close>,
  on the queue and the lines taken so far.
\<close>

fun read_loop :: "int \<Rightarrow> string list \<Rightarrow> string list \<Rightarrow> string list \<times> string list" where
  "read_loop max_lines [] lines = (lines, [])"
| "read_loop max_lines (l # qs) lines =
     (if int (length lines) < max_lines then read_loop max_lines qs (lines @ [l])
      else (lines, l # qs))"

definition session_read :: "ShellSession \<Rightarrow> int \<Rightarrow> string \<times> ShellSession" where
  "session_read s max_lines =
     (case read_loop max_lines (q s) [] of (lines, rest) \<Rightarrow> (concat lines, s\<lparr>q := rest\<rparr>))"

text \<open>\<open>proc.terminate()\<close>, and a process that exits by itself.\<close>

definition terminate :: "nat \<Rightarrow> TerminalTool \<Rightarrow> TerminalTool" where
  "terminate pid w =
     (if pid < length (procs w) then w\<lparr>procs := (procs w)[pid := (procs w ! pid)\<lparr>alive := False\<rparr>]\<rparr>
      else w)"

text \<open>\<open>ShellSession.close\<close>: an exception of \<open>send\<close> is swallowed.\<close>

definition session_close :: "ShellSession \<Rightarrow> TerminalTool \<Rightarrow> TerminalTool" where
  "session_close s w =
     (if proc s < length (procs w) \<and> alive (procs w ! proc s)
      then terminate (proc s) (snd (send s ''exit'' w))
      else w)"

text \<open>The four operations of \<open>TerminalTool\<close>. An operation that raises keeps the changes
  made before the exception.\<close>

definition term_open :: "AgentConfig \<Rightarrow> string \<Rightarrow> TerminalTool \<Rightarrow> (error + reply) \<times> TerminalTool" where
  "term_open cfg sid w =
     (if \<not> allow_shell cfg then (Inl PermissionError, w)
      else if sessions w sid \<noteq> None then (Inr OkExisting, w)
      else (case new_session cfg sid w of
              (Inl e, w') \<Rightarrow> (Inl e, w')
            | (Inr s, w') \<Rightarrow> (Inr Ok, w'\<lparr>sessions := (sessions w')(sid \<mapsto> s)\<rparr>)))"

definition term_exec :: "AgentConfig \<Rightarrow> string \<Rightarrow> string \<Rightarrow> TerminalTool \<Rightarrow> (error + reply) \<times> TerminalTool" where
  "term_exec cfg sid command w =
     (case (case sessions w sid of
              Some s \<Rightarrow> (Inr s, w)
            | None \<Rightarrow> (case new_session cfg sid w of
                          (Inl e, w') \<Rightarrow> (Inl e, w')
                        | (Inr s, w') \<Rightarrow> (Inr s, w'\<lparr>sessions := (sessions w')(sid \<mapsto> s)\<rparr>))) of
        (Inl e, w1) \<Rightarrow> (Inl e, w1)
      | (Inr s, w1) \<Rightarrow>
          (case send s command w1 of
             (Inl e, w2) \<Rightarrow> (Inl e, w2)
           | (Inr u, w2) \<Rightarrow> (Inr Ok, w2)))"

definition term_read :: "string \<Rightarrow> TerminalTool \<Rightarrow> (error + reply) \<times> TerminalTool" where
  "term_read sid w =
     (case sessions w sid of
        None \<Rightarrow> (Inr (Output []), w)
      | Some s \<Rightarrow> (case session_read s 400 of
                     (out, s') \<Rightarrow> (Inr (Output out), w\<lparr>sessions := (sessions w)(sid \<mapsto> s')\<rparr>)))"

definition term_close :: "string \<Rightarrow> TerminalTool \<Rightarrow> (error + reply) \<times> TerminalTool" where
  "term_close sid w =
     (case sessions w sid of
        None \<Rightarrow> (Inr Ok, w)
      | Some s \<Rightarrow> (Inr Ok, session_close s (w\<lparr>sessions := (sessions w)(sid := None)\<rparr>)))"

subsection \<open>Runs of the session manager\<close>

text \<open>
  What can happen to the manager: a caller invokes one of the four operations, a process
  writes a line to its output, the reader thread of a session moves one line into the
  queue, or a process exits by itself.
\<close>

datatype event = Open string | Exec string string | Read string | Close string
  | Emit nat string | Pump string | Exit nat

definition proc_emit :: "nat \<Rightarrow> string \<Rightarrow> TerminalTool \<Rightarrow> TerminalTool" where
  "proc_emit pid line w =
     (if pid < length (procs w) \<and> alive (procs w ! pid)
      then w\<lparr>procs := (procs w)[pid := (procs w ! pid)\<lparr>stdout := stdout (procs w ! pid) @ [line]\<rparr>]\<rparr>
      else w)"

definition pump_step :: "string \<Rightarrow> TerminalTool \<Rightarrow> TerminalTool" where
  "pump_step sid w =
     (case sessions w sid of
        None \<Rightarrow> w
      | Some s \<Rightarrow>
          if proc s < length (procs w) then
            (case pump (stdout (procs w ! proc s)) s of
               (rest, s') \<Rightarrow> w\<lparr>sessions := (sessions w)(sid \<mapsto> s'),
                                procs := (procs w)[proc s := (procs w ! proc s)\<lparr>stdout := rest\<rparr>]\<rparr>)
          else w)"

fun step :: "AgentConfig \<Rightarrow> event \<Rightarrow> TerminalTool \<Rightarrow> (error + reply) \<times> TerminalTool" where
  "step cfg (Open sid) w = term_open cfg sid w"
| "step cfg (Exec sid command) w = term_exec cfg sid command w"
| "step cfg (Read sid) w = term_read sid w"
| "step cfg (Close sid) w = term_close sid w"
| "step cfg (Emit pid line) w = (Inr Ok, proc_emit pid line w)"
| "step cfg (Pump sid) w = (Inr Ok, pump_step sid w)"
| "step cfg (Exit pid) w = (Inr Ok, terminate pid w)"

fun run :: "AgentConfig \<Rightarrow> event list \<Rightarrow> TerminalTool \<Rightarrow> TerminalTool" where
  "run cfg [] w = w"
| "run cfg (e # es) w = run cfg es (snd (step cfg e w))"

text \<open>\<open>TerminalTool.__init__\<close>: no session, and no process started yet.\<close>

definition init :: "string list \<Rightarrow> TerminalTool" where
  "init progs = \<lparr>sessions = Map.empty, procs = [], programs = progs\<rparr>"

text \<open>
  One session and its process alone: the process writes a line, the reader thread moves
  a line, the caller reads. \<open>chan_run\<close> returns the texts the reads returned, in order,
  with the output and the session at the end; \<open>written\<close> is what the process wrote.
\<close>

datatype chan_event = ProcWrite string | PumpLine | SessRead int

fun chan_run :: "chan_event list \<Rightarrow> string list \<times> ShellSession \<Rightarrow> string list \<times> (string list \<times> ShellSession)" where
  "chan_run [] c = ([], c)"
| "chan_run (ProcWrite line # es) (out, s) = chan_run es (out @ [line], s)"
| "chan_run (PumpLine # es) (out, s) = chan_run es (pump out s)"
| "chan_run (SessRead n # es) (out, s) =
     (case session_read s n of (r, s') \<Rightarrow>
        (case chan_run es (out, s') of (rs, c) \<Rightarrow> (r # rs, c)))"

fun written :: "chan_event list \<Rightarrow> string list" where
  "written [] = []"
| "written (ProcWrite line # es) = line # written es"
| "written (e # es) = written es"

text \<open>
  The table of sessions is consistent, apart from the processes \<open>X\<close> that exited by
  themselves, when every session's handle is a started process, alive unless it is in
  \<open>X\<close>, and no two session ids share a process.
\<close>

definition consistent :: "nat set \<Rightarrow> TerminalTool \<Rightarrow> bool" where
  "consistent X w =
     (\<forall>sid s. sessions w sid = Some s \<longrightarrow>
        proc s < length (procs w) \<and> (proc s \<notin> X \<longrightarrow> alive (procs w ! proc s)) \<and>
        (\<forall>sid' s'. sessions w sid' = Some s' \<and> proc s' = proc s \<longrightarrow> sid' = sid))"

fun exits :: "event \<Rightarrow> nat set" where
  "exits (Exit pid) = {pid}"
| "exits e = {}"

text \<open>A run used at concrete inputs: a session is opened, runs a command, its output is
  buffered, and a second session is opened.\<close>

definition demo_events :: "event list" where
  "demo_events = [Open ''s1'', Exec ''s1'' ''echo hi'', Emit 0 ''hi\<newline>'', Pump ''s1'', Open ''s2'']"

definition demo_world :: TerminalTool where
  "demo_world = run cfg0 demo_events (init [''bash''])"

text \<open>
  The channel of a session whose process runs: the process, the lines in the queue and
  the lines of output that the reader thread has not moved yet.
\<close>

definition channel :: "TerminalTool \<Rightarrow> string \<Rightarrow> (nat \<times> string list \<times> string list) option" where
  "channel w sid =
     (case sessions w sid of
        None \<Rightarrow> None
      | Some s \<Rightarrow>
          if proc s < length (procs w) \<and> alive (procs w ! proc s)
          then Some (proc s, q s, stdout (procs w ! proc s))
          else None)"

text \<open>The manager after \<open>open("s1")\<close>, and after \<open>exec("s1", "ls")\<close> under a
  configuration that does not allow the shell.\<close>

definition opened_world :: TerminalTool where
  "opened_world = run cfg0 [Open ''s1''] (init [''bash''])"

definition no_shell_world :: TerminalTool where
  "no_shell_world = run cfg_no_shell [Exec ''s1'' ''ls''] (init [''bash''])"

section \<open>UTF-8\<close>

text \<open>
  A Python \<open>str\<close> handed to \<open>fs.write\<close> or returned by \<open>fs.read\<close> is the list of its
  code points, each below \<open>0x110000\<close>; \<open>bytes\<close> are a list of numbers below 256.
  \<open>str.encode("utf-8")\<close> raises \<open>UnicodeEncodeError\<close> on a surrogate.
\<close>

definition encode_cp :: "nat \<Rightarrow> error + nat list" where
  "encode_cp cp =
     (if cp < 0x80 then Inr [cp]
      else if cp < 0x800 then Inr [0xC0 + cp div 64, 0x80 + cp mod 64]
      else if cp < 0x10000 then
        (if 0xD800 \<le> cp \<and> cp \<le> 0xDFFF then Inl UnicodeEncodeError
         else Inr [0xE0 + cp div 4096, 0x80 + (cp div 64) mod 64, 0x80 + cp mod 64])
      else if cp < 0x110000 then
        Inr [0xF0 + cp div 262144, 0x80 + (cp div 4096) mod 64, 0x80 + (cp div 64) mod 64,
             0x80 + cp mod 64]
      else Inl UnicodeEncodeError)"

fun utf8_encode :: "nat list \<Rightarrow> error + nat list" where
  "utf8_encode [] = Inr []"
| "utf8_encode (cp # cps) =
     (case encode_cp cp of
        Inl e \<Rightarrow> Inl e
      | Inr bs \<Rightarrow> (case utf8_encode cps of Inl e \<Rightarrow> Inl e | Inr rest \<Rightarrow> Inr (bs @ rest)))"

text \<open>
  \<open>bytes.decode("utf-8")\<close>, strict: \<open>None\<close> is \<open>UnicodeDecodeError\<close>. Overlong forms,
  surrogates and values from \<open>0x110000\<close> are refused by the ranges of the second byte.
\<close>

definition cont :: "nat \<Rightarrow> bool" where
  "cont b = (0x80 \<le> b \<and> b < 0xC0)"

fun utf8_decode :: "nat list \<Rightarrow> nat list option" where
  "utf8_decode [] = Some []"
| "utf8_decode (b # bs) =
     (if b < 0x80 then map_option (Cons b) (utf8_decode bs)
      else if 0xC2 \<le> b \<and> b < 0xE0 then
        (case bs of
           b1 # r \<Rightarrow>
             if cont b1 then map_option (Cons ((b - 0xC0) * 64 + (b1 - 0x80))) (utf8_decode r)
             else None
         | _ \<Rightarrow> None)
      else if 0xE0 \<le> b \<and> b < 0xF0 then
        (case bs of
           b1 # b2 # r \<Rightarrow>
             if cont b1 \<and> cont b2 \<and> (if b = 0xE0 then 0xA0 \<le> b1 else True)
                \<and> (if b = 0xED then b1 < 0xA0 else True)
             then map_option (Cons ((b - 0xE0) * 4096 + (b1 - 0x80) * 64 + (b2 - 0x80)))
                    (utf8_decode r)
             else None
         | _ \<Rightarrow> None)
      else if 0xF0 \<le> b \<and> b < 0xF5 then
        (case bs of
           b1 # b2 # b3 # r \<Rightarrow>
             if cont b1 \<and> cont b2 \<and> cont b3 \<and> (if b = 0xF0 then 0x90 \<le> b1 else True)
                \<and> (if b = 0xF4 then b1 < 0x90 else True)
             then map_option
                    (Cons ((b - 0xF0) * 262144 + (b1 - 0x80) * 4096 + (b2 - 0x80) * 64 + (b3 - 0x80)))
                    (utf8_decode r)
             else None
         | _ \<Rightarrow> None)
      else None)"

text \<open>\<open>bytes.hex()\<close>: two lower-case digits for each byte.\<close>

definition hex_digit :: "nat \<Rightarrow> char" where
  "hex_digit d = ''0123456789abcdef'' ! (d mod 16)"

definition hex :: "nat list \<Rightarrow> string" where
  "hex bs = concat (map (\<lambda>b. [hex_digit (b div 16), hex_digit b]) bs)"

section \<open>PathJail: \<open>jail_path\<close> and \<open>match_any\<close>\<close>

text \<open>
  \<open>pathlib\<close> on POSIX. \<open>path_parts\<close> are the components of a path string: it is split
  at \<open>/\<close>, and empty components and \<open>.\<close> are dropped. \<open>root / p\<close> is \<open>p\<close> when \<open>p\<close>
  is absolute. The file system of this development has no symbolic links, so
  \<open>Path.resolve()\<close> removes the \<open>..\<close> components, each with the component before it.
\<close>

fun split_slash :: "string \<Rightarrow> string list" where
  "split_slash [] = [[]]"
| "split_slash (c # cs) =
     (if c = CHR ''/'' then [] # split_slash cs
      else (case split_slash cs of [] \<Rightarrow> [[c]] | x # xs \<Rightarrow> (c # x) # xs))"

definition path_parts :: "string \<Rightarrow> string list" where
  "path_parts p = filter (\<lambda>c. c \<noteq> [] \<and> c \<noteq> ''.'') (split_slash p)"

definition joinpath :: "fpath \<Rightarrow> string \<Rightarrow> string list" where
  "joinpath root p = (if startswith p ''/'' then path_parts p else root @ path_parts p)"

definition resolve :: "string list \<Rightarrow> fpath" where
  "resolve comps = foldl (\<lambda>acc c. if c = ''..'' then butlast acc else acc @ [c]) [] comps"

text \<open>\<open>str(path)\<close> of an absolute path.\<close>

definition str_of_path :: "fpath \<Rightarrow> string" where
  "str_of_path p = (if p = [] then ''/'' else concat (map (\<lambda>c. CHR ''/'' # c) p))"

definition jail_path :: "fpath \<Rightarrow> string \<Rightarrow> error + fpath" where
  "jail_path root p =
     (let pp = resolve (joinpath root p) in
      if \<not> startswith (str_of_path pp) (str_of_path root) then Inl PermissionError
      else Inr pp)"

text \<open>
  What the operations take from the standard library and the clock: the time stamp
  \<open>time.strftime("%Y%m%d-%H%M%S")\<close> at the call, the first eight hexadecimal digits of
  the SHA-256 of a string, \<open>fnmatch.fnmatch(name, pattern)\<close>, and the lines of a file
  read as text (\<open>f.read().splitlines(keepends=True)\<close> with decoding errors ignored).
\<close>

record env =
  clock :: string
  digest8 :: "string \<Rightarrow> string"
  fnmatch :: "string \<Rightarrow> string \<Rightarrow> bool"
  decode_lines :: "nat list \<Rightarrow> nat list list"

text \<open>
  \<open>fnmatch.fnmatch\<close> on POSIX for a pattern without bracket expressions: \<open>*\<close> matches
  any text, \<open>/\<close> included, \<open>?\<close> any one character, any other character itself.
\<close>

fun glob :: "string \<Rightarrow> string \<Rightarrow> bool" where
  "glob [] s = (s = [])"
| "glob (p # ps) [] = (p = CHR ''*'' \<and> glob ps [])"
| "glob (p # ps) (c # cs) =
     (if p = CHR ''*'' then glob ps (c # cs) \<or> glob (p # ps) cs
      else if p = CHR ''?'' then glob ps cs
      else c = p \<and> glob ps cs)"

definition match_any :: "env \<Rightarrow> fpath \<Rightarrow> string list \<Rightarrow> bool" where
  "match_any ev p patterns = list_ex (\<lambda>pat. fnmatch ev (str_of_path p) pat) patterns"

section \<open>The file system\<close>

text \<open>
  The file system is the tree below \<open>/\<close>: a regular file with its bytes, or a directory
  with its entries in the order \<open>os.scandir\<close> lists them.
\<close>

datatype node = File "nat list" | Dir "(string \<times> node) list"

fun lookup :: "node \<Rightarrow> fpath \<Rightarrow> node option" where
  "lookup n [] = Some n"
| "lookup n (c # cs) =
     (case n of
        File _ \<Rightarrow> None
      | Dir es \<Rightarrow> (case map_of es c of None \<Rightarrow> None | Some m \<Rightarrow> lookup m cs))"

definition is_dir :: "node \<Rightarrow> fpath \<Rightarrow> bool" where
  "is_dir fs p = (case lookup fs p of Some (Dir _) \<Rightarrow> True | _ \<Rightarrow> False)"

definition is_file :: "node \<Rightarrow> fpath \<Rightarrow> bool" where
  "is_file fs p = (case lookup fs p of Some (File _) \<Rightarrow> True | _ \<Rightarrow> False)"

definition exists_path :: "node \<Rightarrow> fpath \<Rightarrow> bool" where
  "exists_path fs p = (lookup fs p \<noteq> None)"

text \<open>
  \<open>alter f p\<close> changes the entry \<open>p\<close> of its parent directory: \<open>f\<close> sees the entry, or
  \<open>None\<close>, and returns the new entry, \<open>None\<close> to remove it, or an error. The parent
  must be a directory.
\<close>

fun alter :: "(node option \<Rightarrow> error + node option) \<Rightarrow> fpath \<Rightarrow> node \<Rightarrow> error + node" where
  "alter f [] n = Inl OSError"
| "alter f [c] n =
     (case n of
        File _ \<Rightarrow> Inl NotADirectoryError
      | Dir es \<Rightarrow>
          (case f (map_of es c) of
             Inl e \<Rightarrow> Inl e
           | Inr None \<Rightarrow> Inr (Dir (AList.delete c es))
           | Inr (Some m) \<Rightarrow> Inr (Dir (AList.update c m es))))"
| "alter f (c # cs) n =
     (case n of
        File _ \<Rightarrow> Inl NotADirectoryError
      | Dir es \<Rightarrow>
          (case map_of es c of
             None \<Rightarrow> Inl FileNotFoundError
           | Some m \<Rightarrow>
               (case alter f cs m of
                  Inl e \<Rightarrow> Inl e
                | Inr m' \<Rightarrow> Inr (Dir (AList.update c m' es)))))"

text \<open>\<open>Path.mkdir(parents=True, exist_ok=True)\<close>.\<close>

fun mkdirs :: "fpath \<Rightarrow> node \<Rightarrow> error + node" where
  "mkdirs [] n = (case n of Dir _ \<Rightarrow> Inr n | File _ \<Rightarrow> Inl FileExistsError)"
| "mkdirs (c # cs) n =
     (case n of
        File _ \<Rightarrow> Inl NotADirectoryError
      | Dir es \<Rightarrow>
          (case mkdirs cs (case map_of es c of None \<Rightarrow> Dir [] | Some m \<Rightarrow> m) of
             Inl e \<Rightarrow> Inl e
           | Inr m' \<Rightarrow> Inr (Dir (AList.update c m' es))))"

text \<open>\<open>open(p, "wb")\<close> followed by \<open>f.write(data)\<close>.\<close>

definition write_file :: "fpath \<Rightarrow> nat list \<Rightarrow> node \<Rightarrow> error + node" where
  "write_file p data fs =
     alter (\<lambda>old. case old of Some (Dir _) \<Rightarrow> Inl IsADirectoryError
                              | _ \<Rightarrow> Inr (Some (File data))) p fs"

text \<open>\<open>Path.unlink()\<close>.\<close>

definition unlink :: "fpath \<Rightarrow> node \<Rightarrow> error + node" where
  "unlink p fs =
     alter (\<lambda>old. case old of None \<Rightarrow> Inl FileNotFoundError
                              | Some (Dir _) \<Rightarrow> Inl IsADirectoryError
                              | Some (File _) \<Rightarrow> Inr None) p fs"

text \<open>\<open>shutil.rmtree(p)\<close>; on \<open>/\<close> it empties the directory and fails to remove it.\<close>

definition rmtree :: "fpath \<Rightarrow> node \<Rightarrow> (error + unit) \<times> node" where
  "rmtree p fs =
     (if p = [] then (Inl OSError, (case fs of Dir _ \<Rightarrow> Dir [] | File _ \<Rightarrow> fs))
      else (case alter (\<lambda>old. case old of None \<Rightarrow> Inl FileNotFoundError
                                          | Some (File _) \<Rightarrow> Inl NotADirectoryError
                                          | Some (Dir _) \<Rightarrow> Inr None) p fs of
              Inl e \<Rightarrow> (Inl e, fs)
            | Inr fs' \<Rightarrow> (Inr (), fs')))"

text \<open>\<open>os.replace(src, dst)\<close>.\<close>

definition os_replace :: "fpath \<Rightarrow> fpath \<Rightarrow> node \<Rightarrow> error + node" where
  "os_replace src dst fs =
     (case lookup fs src of
        None \<Rightarrow> Inl FileNotFoundError
      | Some n \<Rightarrow>
          if src = dst then Inr fs
          else if strict_prefix src dst then Inl OSError
          else (case alter (\<lambda>old. case (n, old) of
                                    (File _, Some (Dir _)) \<Rightarrow> Inl IsADirectoryError
                                  | (Dir _, Some (File _)) \<Rightarrow> Inl NotADirectoryError
                                  | (Dir _, Some (Dir (_ # _))) \<Rightarrow> Inl OSError
                                  | _ \<Rightarrow> Inr (Some n)) dst fs of
                  Inl e \<Rightarrow> Inl e
                | Inr fs1 \<Rightarrow> alter (\<lambda>old. Inr None) src fs1))"

text \<open>
  \<open>shutil.copy2(src, dst)\<close>: a directory as destination receives the copy under the
  source's name; copying a file onto itself raises \<open>SameFileError\<close>. It returns the path
  of the copy.
\<close>

definition basename :: "fpath \<Rightarrow> string" where
  "basename p = (if p = [] then [] else last p)"

definition copy2 :: "fpath \<Rightarrow> fpath \<Rightarrow> node \<Rightarrow> error + (fpath \<times> node)" where
  "copy2 src dst fs =
     (let dst' = (if is_dir fs dst \<and> basename src \<noteq> [] then dst @ [basename src] else dst) in
      if dst' = src \<and> exists_path fs src then Inl SameFileError
      else (case lookup fs src of
              None \<Rightarrow> Inl FileNotFoundError
            | Some (Dir _) \<Rightarrow> Inl IsADirectoryError
            | Some (File data) \<Rightarrow>
                (case write_file dst' data fs of
                   Inl e \<Rightarrow> Inl e
                 | Inr fs' \<Rightarrow> Inr (dst', fs'))))"

section \<open>AtomicFileStore: \<open>atomic_write\<close> and \<open>backup_file\<close>\<close>

text \<open>
  An operation that raises after it has changed the file system leaves the changes:
  every operation returns its result, or the exception, with the file system after it.
  \<open>path.with_suffix(path.suffix + ".tmp")\<close> appends \<open>.tmp\<close> to the name and raises
  \<open>ValueError\<close> on a path without a name.
\<close>

definition tmp_path :: "fpath \<Rightarrow> fpath" where
  "tmp_path path = butlast path @ [last path @ ''.tmp'']"

definition atomic_write :: "fpath \<Rightarrow> nat list \<Rightarrow> node \<Rightarrow> (error + unit) \<times> node" where
  "atomic_write path data fs =
     (case mkdirs (butlast path) fs of
        Inl e \<Rightarrow> (Inl e, fs)
      | Inr fs1 \<Rightarrow>
          if path = [] then (Inl ValueError, fs1)
          else (case write_file (tmp_path path) data fs1 of
                  Inl e \<Rightarrow> (Inl e, fs1)
                | Inr fs2 \<Rightarrow>
                    (case os_replace (tmp_path path) path fs2 of
                       Inl e \<Rightarrow> (Inl e, fs2)
                     | Inr fs3 \<Rightarrow> (Inr (), fs3))))"

text \<open>
  \<open>backup_file(backup_dir, path)\<close>; \<open>backup_dir\<close> is \<open>None\<close> when the configuration
  was not resolved, and \<open>None / name\<close> raises \<open>TypeError\<close>. \<open>backup_target\<close> is the
  path it computes and returns.
\<close>

definition backup_target :: "env \<Rightarrow> fpath \<Rightarrow> fpath \<Rightarrow> fpath" where
  "backup_target ev bd path =
     bd @ [basename path @ ''.'' @ clock ev @ ''.'' @ digest8 ev (str_of_path path) @ ''.bak'']"

definition backup_file :: "env \<Rightarrow> fpath option \<Rightarrow> fpath \<Rightarrow> node \<Rightarrow> (error + fpath) \<times> node" where
  "backup_file ev bdir path fs =
     (case bdir of
        None \<Rightarrow> (Inl TypeError, fs)
      | Some bd \<Rightarrow>
          (case mkdirs bd fs of
             Inl e \<Rightarrow> (Inl e, fs)
           | Inr fs1 \<Rightarrow>
               (case copy2 path (backup_target ev bd path) fs1 of
                  Inl e \<Rightarrow> (Inl e, fs1)
                | Inr (copy, fs2) \<Rightarrow> (Inr (backup_target ev bd path), fs2))))"

section \<open>FileSystemService: \<open>FileSystemTool\<close>\<close>

text \<open>The operations carry the names under which the dispatcher offers them:
  \<open>fs.tree\<close>, \<open>fs.read\<close>, \<open>fs.write\<close> and \<open>fs.delete\<close>. The private methods
  \<open>_allowed\<close>, \<open>_target\<close> and \<open>_check_file\<close> are \<open>allowed\<close>, \<open>target\<close> and
  \<open>check_file\<close>.\<close>

definition allowed :: "env \<Rightarrow> AgentConfig \<Rightarrow> fpath \<Rightarrow> bool" where
  "allowed ev cfg p =
     (if \<not> match_any ev p (allow_patterns cfg) then False
      else if match_any ev p (deny_patterns cfg) then False
      else True)"

definition target :: "env \<Rightarrow> AgentConfig \<Rightarrow> string \<Rightarrow> error + fpath" where
  "target ev cfg rel =
     (case jail_path (project_root cfg) rel of
        Inl e \<Rightarrow> Inl e
      | Inr p \<Rightarrow> if \<not> allowed ev cfg p then Inl PermissionError else Inr p)"

definition check_file :: "env \<Rightarrow> AgentConfig \<Rightarrow> string \<Rightarrow> node \<Rightarrow> error + fpath" where
  "check_file ev cfg rel fs =
     (case target ev cfg rel of
        Inl e \<Rightarrow> Inl e
      | Inr p \<Rightarrow> if \<not> is_file fs p then Inl FileNotFoundError else Inr p)"

subsection \<open>\<open>fs.tree\<close>\<close>












subsection \<open>\<open>fs.read\<close>, \<open>fs.write\<close> and \<open>fs.delete\<close>\<close>

text \<open>
  The dictionary \<open>{"mode": ..., "content": ...}\<close>; the content is a \<open>str\<close>, the decoded
  text or the hexadecimal digits. \<open>f.seek\<close> raises \<open>OSError\<close> on a negative position,
  \<open>f.read(n)\<close> reads to the end for \<open>n = -1\<close> and raises \<open>ValueError\<close> below.
\<close>

record read_reply =
  reply_mode :: string
  reply_content :: "nat list"

definition file_bytes :: "node \<Rightarrow> fpath \<Rightarrow> nat list" where
  "file_bytes fs p = (case lookup fs p of Some (File data) \<Rightarrow> data | _ \<Rightarrow> [])"

definition fs_read :: "env \<Rightarrow> AgentConfig \<Rightarrow> string \<Rightarrow> int \<Rightarrow> int option \<Rightarrow> node \<Rightarrow> error + read_reply" where
  "fs_read ev cfg rel start len fs =
     (case check_file ev cfg rel fs of
        Inl e \<Rightarrow> Inl e
      | Inr path \<Rightarrow>
          if start < 0 then Inl OSError
          else
            (let n = (case len of None \<Rightarrow> max_read_bytes cfg
                                | Some l \<Rightarrow> min l (max_read_bytes cfg))
             in if n < -1 then Inl ValueError
                else
                  (let rest = drop (nat start) (file_bytes fs path);
                       data = (if n = -1 then rest else take (nat n) rest)
                   in (case utf8_decode data of
                         Some text \<Rightarrow> Inr \<lparr>reply_mode = ''text'', reply_content = text\<rparr>
                       | None \<Rightarrow> Inr \<lparr>reply_mode = ''bytes'',
                                        reply_content = map of_char (hex data)\<rparr>))))"

text \<open>The dictionaries \<open>{"ok": True, "path": rel}\<close> and \<open>{"ok": True}\<close>.\<close>

datatype fs_reply = OkPath string | OkDone

definition fs_write :: "env \<Rightarrow> AgentConfig \<Rightarrow> string \<Rightarrow> nat list \<Rightarrow> bool \<Rightarrow> node \<Rightarrow> (error + fs_reply) \<times> node" where
  "fs_write ev cfg rel content backup fs =
     (case target ev cfg rel of
        Inl e \<Rightarrow> (Inl e, fs)
      | Inr path \<Rightarrow>
          (case (if backup \<and> exists_path fs path
                 then (case backup_file ev (backup_dir cfg) path fs of
                         (Inl e, fs1) \<Rightarrow> (Inl e, fs1)
                       | (Inr b, fs1) \<Rightarrow> (Inr (), fs1))
                 else (Inr (), fs)) of
             (Inl e, fs1) \<Rightarrow> (Inl e, fs1)
           | (Inr u, fs1) \<Rightarrow>
               (case utf8_encode content of
                  Inl e \<Rightarrow> (Inl e, fs1)
                | Inr data \<Rightarrow>
                    (case atomic_write path data fs1 of
                       (Inl e, fs2) \<Rightarrow> (Inl e, fs2)
                     | (Inr u, fs2) \<Rightarrow> (Inr (OkPath rel), fs2)))))"

definition fs_delete :: "env \<Rightarrow> AgentConfig \<Rightarrow> string \<Rightarrow> node \<Rightarrow> (error + fs_reply) \<times> node" where
  "fs_delete ev cfg rel fs =
     (case target ev cfg rel of
        Inl e \<Rightarrow> (Inl e, fs)
      | Inr p \<Rightarrow>
          if is_dir fs p then
            (case rmtree p fs of
               (Inl e, fs') \<Rightarrow> (Inl e, fs')
             | (Inr u, fs') \<Rightarrow> (Inr OkDone, fs'))
          else if exists_path fs p then
            (case unlink p fs of
               Inl e \<Rightarrow> (Inl e, fs)
             | Inr fs' \<Rightarrow> (Inr OkDone, fs'))
          else (Inr OkDone, fs))"

section \<open>DiffEngine: \<open>EditTool.apply_unified_diff\<close>\<close>

text \<open>
  The dictionaries returned: \<open>{"ok": True, "file": filename}\<close>, and \<open>{"ok": False,
  "error": ...}\<close> with the message for a path outside the project root, for a diff that
  \<open>_patch\<close> refuses, and for an exception caught by the \<open>except\<close> clause.
\<close>

datatype apply_reply = Applied string | PermissionDenied | ParseFailed | ApplyFailed error

definition apply_unified_diff :: "env \<Rightarrow> AgentConfig \<Rightarrow> string \<Rightarrow> string \<Rightarrow> node \<Rightarrow> apply_reply \<times> node" where
  "apply_unified_diff ev cfg filename diff_text fs =
     (let tgt = resolve (joinpath (project_root cfg) filename) in
      if \<not> startswith (str_of_path tgt) (str_of_path (project_root cfg))
      then (PermissionDenied, fs)
      else
        (case (if \<not> exists_path fs tgt then Inr []
               else (case lookup fs tgt of
                       Some (File data) \<Rightarrow> Inr (decode_lines ev data)
                     | _ \<Rightarrow> Inl IsADirectoryError)) of
           Inl e \<Rightarrow> (ApplyFailed e, fs)
         | Inr old_lines \<Rightarrow>
             (case patch old_lines diff_text of
                None \<Rightarrow> (ParseFailed, fs)
              | Some patched \<Rightarrow>
                  (case (if exists_path fs tgt
                         then (case backup_file ev (backup_dir cfg) tgt fs of
                                 (Inl e, fs1) \<Rightarrow> (Inl e, fs1)
                               | (Inr b, fs1) \<Rightarrow> (Inr (), fs1))
                         else (Inr (), fs)) of
                     (Inl e, fs1) \<Rightarrow> (ApplyFailed e, fs1)
                   | (Inr u, fs1) \<Rightarrow>
                       (case utf8_encode (map of_char (concat patched)) of
                          Inl e \<Rightarrow> (ApplyFailed e, fs1)
                        | Inr data \<Rightarrow>
                            (case atomic_write tgt data fs1 of
                               (Inl e, fs2) \<Rightarrow> (ApplyFailed e, fs2)
                             | (Inr u, fs2) \<Rightarrow> (Applied filename, fs2)))))))"



subsection \<open>Concrete inputs\<close>

text \<open>The library functions at concrete inputs: a fixed time stamp and digest, \<open>glob\<close>
  for \<open>fnmatch\<close> (the patterns used have no bracket expression), and files read as
  one line a byte (the lines of the original file are never used).\<close>

definition env0 :: env where
  "env0 = \<lparr>clock = ''20240101-120000'', digest8 = (\<lambda>s. ''0a1b2c3d''),
     fnmatch = (\<lambda>name pat. glob pat name), decode_lines = map (\<lambda>b. [b])\<rparr>"

text \<open>A project in \<open>/proj\<close> with a file, a sub-directory and a \<open>.git\<close> directory, beside a
  directory \<open>/proj2\<close>.\<close>

definition fs0 :: node where
  "fs0 = Dir [(''proj'', Dir [(''a.txt'', File [104, 101, 108, 108, 111]),
                             (''.git'', Dir [(''config'', File [120])]),
                             (''src'', Dir [(''main.py'', File [112])])]),
              (''proj2'', Dir [(''secret.txt'', File [115])])]"

text \<open>The project after \<open>src\<close> has been deleted.\<close>

definition fs0_less_src :: node where
  "fs0_less_src = Dir [(''proj'', Dir [(''a.txt'', File [104, 101, 108, 108, 111]),
                                     (''.git'', Dir [(''config'', File [120])])]),
                       (''proj2'', Dir [(''secret.txt'', File [115])])]"

text \<open>Two diffs that delete the only line of \<open>a.txt\<close>, with and without a hunk header.\<close>

definition hunk_deleting :: string where
  "hunk_deleting = ''--- a/a.txt\<newline>+++ b/a.txt\<newline>@@ -1 +0,0 @@\<newline>-hello\<newline>''"

definition bare_deleting :: string where
  "bare_deleting = ''--- a/a.txt\<newline>+++ b/a.txt\<newline>-hello\<newline>''"

text \<open>The project after \<open>new/x.txt\<close> has been written with the text \<open>w\<close>, \<open>U+20AC\<close>.\<close>

definition fs0_written :: node where
  "fs0_written = Dir [(''proj'', Dir [(''a.txt'', File [104, 101, 108, 108, 111]),
                                    (''.git'', Dir [(''config'', File [120])]),
                                    (''src'', Dir [(''main.py'', File [112])]),
                                    (''new'', Dir [(''x.txt'', File [119, 226, 130, 172])])]),
                      (''proj2'', Dir [(''secret.txt'', File [115])])]"

text \<open>The project after \<open>a.txt\<close> has been overwritten with \<open>world\<close>, and a
  configuration whose backup directory is a regular file.\<close>

definition fs0_overwritten :: node where
  "fs0_overwritten = Dir [(''proj'', Dir [(''a.txt'', File [119, 111, 114, 108, 100]),
                                        (''.git'', Dir [(''config'', File [120])]),
                                        (''src'', Dir [(''main.py'', File [112])]),
                                        (''.ai_agent_backups'',
                                           Dir [(''a.txt.20240101-120000.0a1b2c3d.bak'',
                                                 File [104, 101, 108, 108, 111])])]),
                          (''proj2'', Dir [(''secret.txt'', File [115])])]"

definition cfg_bad_backup :: AgentConfig where
  "cfg_bad_backup = cfg0\<lparr>backup_dir := Some [''proj'', ''src'', ''main.py'']\<rparr>"

section \<open>Properties of the DiffEngine\<close>

subsection \<open>Reading a text back as its lines\<close>

lemma readline_terminated: "terminated l \<Longrightarrow> readline (l @ r) = (l, r)"
proof (induction l)
  case Nil
  then show ?case by (simp add: terminated_def)
next
  case (Cons c l)
  show ?case
  proof (cases "l = []")
    case True
    with Cons.prems show ?thesis by (simp add: terminated_def)
  next
    case False
    with Cons.prems have "c \<noteq> CHR 0x0A" "terminated l"
      by (auto simp: terminated_def)
    with Cons.IH show ?thesis by simp
  qed
qed

lemma readline_last: "l \<noteq> [] \<Longrightarrow> CHR 0x0A \<notin> set (butlast l) \<Longrightarrow> readline l = (l, [])"
proof (induction l)
  case Nil
  then show ?case by simp
next
  case (Cons c l)
  then show ?case by (cases "l = []") auto
qed

lemma terminated_nonempty: "terminated l \<Longrightarrow> l \<noteq> []"
  by (simp add: terminated_def)

lemma readlines_text_lines: "text_lines ls \<Longrightarrow> readlines (concat ls) = ls"
proof (induction ls rule: text_lines.induct)
  case 1
  then show ?case by (simp add: readlines.simps)
next
  case (2 l)
  then show ?case by (simp add: readlines.simps [of l] readlines.simps [of "[]"] readline_last)
next
  case (3 l v va)
  then have "readline (l @ concat (v # va)) = (l, concat (v # va))"
    by (simp add: readline_terminated)
  with 3 show ?case
    using readlines.simps [of "l @ concat (v # va)"] by (simp add: terminated_nonempty)
qed

lemma rebuild_body:
  "list_all (\<lambda>l. is_insertion l \<or> is_context l) body \<Longrightarrow> rebuild body new = new @ map (drop 1) body"
proof (induction body arbitrary: new)
  case Nil
  then show ?case by simp
next
  case (Cons l body)
  then have IH: "\<And>new. rebuild body new = new @ map (drop 1) body"
    by simp
  from Cons.prems have "is_insertion l \<or> is_context l"
    by simp
  then show ?case
  proof
    assume "is_insertion l"
    then show ?thesis
      by (cases l) (auto simp: is_insertion_def startswith_def IH)
  next
    assume "is_context l"
    then show ?thesis
      by (cases l) (auto simp: is_context_def startswith_def IH)
  qed
qed

lemma strip_nonempty: "c \<in> set s \<Longrightarrow> \<not> is_space c \<Longrightarrow> strip s \<noteq> []"
proof -
  assume a: "c \<in> set s" "\<not> is_space c"
  then have "dropWhile is_space s \<noteq> []"
    by auto
  moreover have "c \<in> set (dropWhile is_space s)" using a
    by (metis dropWhile_append3 in_set_conv_decomp)
  ultimately show ?thesis using a
    by (auto simp: strip_def)
qed

lemma text_lines_append_Cons:
  "text_lines (pre @ l # ls) \<Longrightarrow> text_lines (l # ls) \<and> list_all terminated pre"
  by (induction pre rule: text_lines.induct) (auto)

lemma skip_header_hunk:
  "text_lines (pre @ hdr # body) \<Longrightarrow> list_all (\<lambda>l. \<not> startswith l ''@@'') pre \<Longrightarrow> startswith hdr ''@@''
    \<Longrightarrow> skip_header (concat (pre @ hdr # body)) = (hdr, concat body)"
proof (induction pre)
  case Nil
  show ?case
  proof (cases body)
    case Nil
    with Nil.prems show ?thesis
      by (simp add: skip_header.simps [of hdr] readline_last)
  next
    case (Cons b bs)
    with Nil.prems show ?thesis
      by (simp add: skip_header.simps [of "hdr @ _"] readline_terminated terminated_nonempty)
  qed
next
  case (Cons l pre)
  from Cons.prems have t: "terminated l" and rest: "text_lines (pre @ hdr # body)"
    by (cases pre; simp)+
  from Cons.prems have "\<not> startswith l ''@@''"
    by simp
  with t Cons.IH [OF rest] Cons.prems(2,3) show ?case
    by (simp add: skip_header.simps [of "l @ _"] readline_terminated terminated_nonempty)
qed


text \<open>
  C3. The reconstruction never depends on the original file: for any two lists of original
  lines the result on the same diff text is the same; and on a diff text made of header
  lines without \<open>@@\<close>, a hunk header and a body of insertion and context lines only, the
  result is exactly the body lines in order, each without its marker character.
\<close>

theorem patch_independent_of_original:
  "patch old d = patch old' d \<and>
   (text_lines (pre @ hdr # body) \<and> list_all (\<lambda>l. \<not> startswith l ''@@'') pre \<and>
    startswith hdr ''@@'' \<and> list_all (\<lambda>l. is_insertion l \<or> is_context l) body
    \<longrightarrow> patch old (concat (pre @ hdr # body)) = Some (map (drop 1) body) \<and>
        patch old' (concat (pre @ hdr # body)) = Some (map (drop 1) body))"
proof (intro conjI impI)
  show "patch old d = patch old' d"
    by (simp add: patch_def)
next
  assume h: "text_lines (pre @ hdr # body) \<and> list_all (\<lambda>l. \<not> startswith l ''@@'') pre \<and>
    startswith hdr ''@@'' \<and> list_all (\<lambda>l. is_insertion l \<or> is_context l) body"
  let ?d = "concat (pre @ hdr # body)"
  from h have hdr: "hdr \<noteq> []" and at: "CHR ''@'' \<in> set hdr"
    by (auto simp: startswith_def prefix_def)
  have sp: "\<not> is_space CHR ''@''"
    by (simp add: is_space_def)
  from at have "CHR ''@'' \<in> set ?d"
    by simp
  then have ne: "strip ?d \<noteq> []" "?d \<noteq> []"
    using sp strip_nonempty by fastforce+
  from h have sk: "skip_header ?d = (hdr, concat body)"
    by (blast intro: skip_header_hunk)
  from h have "text_lines (hdr # body)"
    using text_lines_append_Cons by blast
  then have "text_lines body"
    by (cases body) auto
  then have rl: "readlines (concat body) = body"
    by (rule readlines_text_lines)
  from h have "startswith hdr ''@@''" and "rebuild body [] = [] @ map (drop 1) body"
    using rebuild_body by blast+
  then have "rebuild (hdr # body) [] = map (drop 1) body"
    by simp
  with ne sk rl hdr have r: "\<And>o'. patch o' ?d = Some (map (drop 1) body)"
    by (simp add: patch_def del: rebuild.simps)
  show "patch old ?d = Some (map (drop 1) body)"
    by (rule r)
  show "patch old' ?d = Some (map (drop 1) body)"
    by (rule r)
qed

theorem patch_independent_of_original_witness:
  "patch [] ''+a'' = patch [[111, 108, 100, 10]] ''+a'' \<and>
   text_lines ([''--- a/x\<newline>'', ''+++ b/x\<newline>''] @ ''@@ -1,1 +1,2 @@\<newline>'' # [''+new1\<newline>'', '' kept\<newline>'']) \<and>
   list_all (\<lambda>l. \<not> startswith l ''@@'') [''--- a/x\<newline>'', ''+++ b/x\<newline>''] \<and>
   startswith ''@@ -1,1 +1,2 @@\<newline>'' ''@@'' \<and>
   list_all (\<lambda>l. is_insertion l \<or> is_context l) [''+new1\<newline>'', '' kept\<newline>''] \<and>
   patch [] ''--- a/x\<newline>+++ b/x\<newline>@@ -1,1 +1,2 @@\<newline>+new1\<newline> kept\<newline>'' = Some [''new1\<newline>'', ''kept\<newline>''] \<and>
   patch [[111, 108, 100, 10]] ''--- a/x\<newline>+++ b/x\<newline>@@ -1,1 +1,2 @@\<newline>+new1\<newline> kept\<newline>'' = Some [''new1\<newline>'', ''kept\<newline>'']"
proof -
  have h: "text_lines ([''--- a/x\<newline>'', ''+++ b/x\<newline>''] @ ''@@ -1,1 +1,2 @@\<newline>'' # [''+new1\<newline>'', '' kept\<newline>'']) \<and>
   list_all (\<lambda>l. \<not> startswith l ''@@'') [''--- a/x\<newline>'', ''+++ b/x\<newline>''] \<and>
   startswith ''@@ -1,1 +1,2 @@\<newline>'' ''@@'' \<and>
   list_all (\<lambda>l. is_insertion l \<or> is_context l) [''+new1\<newline>'', '' kept\<newline>'']"
    by (simp add: terminated_def startswith_def is_insertion_def is_context_def)
  show ?thesis
    using h patch_independent_of_original [of "[]" "''+a''" "[[111, 108, 100, 10]]"
        "[''--- a/x\<newline>'', ''+++ b/x\<newline>'']" "''@@ -1,1 +1,2 @@\<newline>''" "[''+new1\<newline>'', '' kept\<newline>'']"]
    by simp
qed

subsection \<open>With and without a hunk header\<close>

lemma readline_concat: "readline s = (l, r) \<Longrightarrow> l @ r = s"
  by (induction s arbitrary: l r) (auto split: if_splits prod.splits)

lemma readline_line_nonempty: "s \<noteq> [] \<Longrightarrow> readline s = (l, r) \<Longrightarrow> l \<noteq> []"
  by (cases s) (auto split: if_splits prod.splits)

lemma concat_readlines: "concat (readlines s) = s"
proof (induction s rule: readlines.induct)
  case (1 s)
  show ?case
  proof (cases "s = []")
    case True
    then show ?thesis by (simp add: readlines.simps)
  next
    case False
    obtain l r where lr: "readline s = (l, r)"
      by (cases "readline s")
    from "1.IH" [OF False lr [symmetric]] have "concat (readlines r) = r"
      by simp
    with False lr readline_concat [OF lr] show ?thesis
      by (simp add: readlines.simps [of s])
  qed
qed

lemma skip_header_found:
  "skip_header d = (line, rest) \<Longrightarrow> line \<noteq> [] \<Longrightarrow>
     line # readlines rest = dropWhile (\<lambda>l. \<not> startswith l ''@@'') (readlines d)"
proof (induction d arbitrary: line rest rule: skip_header.induct)
  case (1 s)
  obtain l r where lr: "readline s = (l, r)"
    by (cases "readline s")
  from "1.prems" lr have ne: "l \<noteq> []"
    by (auto simp: skip_header.simps [of s] split: if_splits)
  with lr have s: "s \<noteq> []"
    by (auto dest: readline_nonempty)
  with lr have rl: "readlines s = l # readlines r"
    by (simp add: readlines.simps [of s])
  show ?case
  proof (cases "startswith l ''@@''")
    case True
    with "1.prems" lr ne rl show ?thesis
      by (simp add: skip_header.simps [of s])
  next
    case False
    with "1.prems" lr ne have "skip_header r = (line, rest)"
      by (simp add: skip_header.simps [of s])
    from "1.IH" [OF lr [symmetric] ne False this "1.prems"(2)] False rl show ?thesis
      by simp
  qed
qed

lemma skip_header_none:
  "skip_header d = (line, rest) \<Longrightarrow> line = [] \<Longrightarrow>
     list_all (\<lambda>l. \<not> startswith l ''@@'') (readlines d)"
proof (induction d arbitrary: line rest rule: skip_header.induct)
  case (1 s)
  obtain l r where lr: "readline s = (l, r)"
    by (cases "readline s")
  show ?case
  proof (cases "s = []")
    case True
    then show ?thesis by (simp add: readlines.simps)
  next
    case False
    from False lr have ne: "l \<noteq> []"
      by (rule readline_line_nonempty)
    from False lr have rl: "readlines s = l # readlines r"
      by (simp add: readlines.simps [of s])
    from "1.prems" lr ne have ns: "\<not> startswith l ''@@''" and sk: "skip_header r = (line, rest)"
      by (auto simp: skip_header.simps [of s] split: if_splits)
    from "1.IH" [OF lr [symmetric] ne ns sk "1.prems"(2)] ns rl show ?thesis
      by simp
  qed
qed

lemma dropWhile_nonempty_ex: "dropWhile P xs \<noteq> [] \<longleftrightarrow> list_ex (\<lambda>x. \<not> P x) xs"
  by (induction xs) auto

lemma patch_with_hunk:
  assumes h: "list_ex (\<lambda>l. startswith l ''@@'') (readlines d)"
  shows "patch old d = Some (rebuild (dropWhile (\<lambda>l. \<not> startswith l ''@@'') (readlines d)) [])"
proof -
  from h obtain l where l: "l \<in> set (readlines d)" "startswith l ''@@''"
    by (auto simp: list_ex_iff)
  then have "CHR ''@'' \<in> set l"
    by (auto simp: startswith_def prefix_def)
  with l(1) have "CHR ''@'' \<in> set (concat (readlines d))"
    by auto
  then have at: "CHR ''@'' \<in> set d"
    by (simp add: concat_readlines)
  then have ne: "d \<noteq> []" "strip d \<noteq> []"
    using strip_nonempty [of "CHR ''@''" d] by (auto simp: is_space_def)
  obtain line rest where sk: "skip_header d = (line, rest)"
    by (cases "skip_header d")
  have "line \<noteq> []"
  proof
    assume "line = []"
    with sk have "list_all (\<lambda>l. \<not> startswith l ''@@'') (readlines d)"
      by (rule skip_header_none)
    with h show False
      by (auto simp: list_all_iff list_ex_iff)
  qed
  with sk skip_header_found [OF sk] ne show ?thesis
    by (simp add: patch_def del: rebuild.simps)
qed

lemma patch_without_hunk:
  assumes h: "\<not> list_ex (\<lambda>l. startswith l ''@@'') (readlines d)"
  shows "patch old d =
     (if d = [] \<or> strip d = [] \<or> rebuild (readlines d) [] = [] then None
      else Some (rebuild (readlines d) []))"
proof -
  obtain line rest where sk: "skip_header d = (line, rest)"
    by (cases "skip_header d")
  have "line = []"
  proof (rule ccontr)
    assume ne: "line \<noteq> []"
    from skip_header_found [OF sk ne]
    have "dropWhile (\<lambda>l. \<not> startswith l ''@@'') (readlines d) \<noteq> []"
      by (metis list.distinct(1))
    then have "list_ex (\<lambda>l. \<not> \<not> startswith l ''@@'') (readlines d)"
      by (simp only: dropWhile_nonempty_ex)
    with h show False by simp
  qed
  with sk show ?thesis
    by (simp add: patch_def Let_def)
qed


text \<open>
  The classification is the engine's: a line of the body that starts with \<open>+++\<close> or
  \<open>---\<close> counts as a file header and is ignored, so it is neither an insertion nor a
  deletion.
\<close>

lemma triple_plus_is_header:
  "patch old ''@@ -1 +1,2 @@\<newline>+++x\<newline>+y\<newline>'' = Some [''y\<newline>'']"
  by (simp add: patch_def strip_def is_space_def skip_header.simps readlines.simps startswith_def)

section \<open>Properties of the session manager\<close>

subsection \<open>Reading from a session\<close>

lemma read_loop_eq:
  "read_loop n qs lines = (lines @ take (nat n - length lines) qs, drop (nat n - length lines) qs)"
proof (induction qs arbitrary: lines)
  case Nil
  then show ?case by simp
next
  case (Cons l qs)
  show ?case
  proof (cases "int (length lines) < n")
    case True
    then have "nat n - length lines = Suc (nat n - Suc (length lines))"
      by linarith
    with True Cons.IH [of "lines @ [l]"] show ?thesis
      by simp
  next
    case False
    then have "nat n - length lines = 0"
      by linarith
    with False show ?thesis by simp
  qed
qed

lemma session_read_eq:
  "session_read s n = (concat (take (nat n) (q s)), s\<lparr>q := drop (nat n) (q s)\<rparr>)"
  by (simp add: session_read_def read_loop_eq)


lemma chan_run_order:
  "concat (fst (chan_run es (out, s))) @ concat (q (snd (snd (chan_run es (out, s)))))
     @ concat (fst (snd (chan_run es (out, s))))
   = concat (q s) @ concat out @ concat (written es)"
proof (induction es arbitrary: out s)
  case Nil
  then show ?case by simp
next
  case (Cons e es)
  show ?case
  proof (cases e)
    case (ProcWrite line)
    with Cons.IH [of "out @ [line]" s] show ?thesis by simp
  next
    case PumpLine
    show ?thesis
    proof (cases out)
      case Nil
      with PumpLine Cons.IH [of "[]" s] show ?thesis by (simp add: pump_def)
    next
      case (Cons line rest)
      with PumpLine Cons.IH [of rest "s\<lparr>q := q s @ [line]\<rparr>"] show ?thesis
        by (simp add: pump_def)
    qed
  next
    case (SessRead n)
    let ?s' = "s\<lparr>q := drop (nat n) (q s)\<rparr>"
    obtain rs out' s'' where r: "chan_run es (out, ?s') = (rs, out', s'')"
      by (metis prod_cases3)
    from Cons.IH [of out ?s'] r
    have "concat rs @ concat (q s'') @ concat out' = concat (drop (nat n) (q s)) @ concat out @ concat (written es)"
      by simp
    then have "concat (take (nat n) (q s)) @ concat rs @ concat (q s'') @ concat out'
        = (concat (take (nat n) (q s)) @ concat (drop (nat n) (q s))) @ concat out @ concat (written es)"
      by simp
    also have "concat (take (nat n) (q s)) @ concat (drop (nat n) (q s)) = concat (q s)"
      by (metis append_take_drop_id concat_append)
    finally show ?thesis
      using SessRead r by (simp add: session_read_eq)
  qed
qed

text \<open>What a session and its process hold, through the operations and events.\<close>

lemma run_append: "run cfg (es @ es') w = run cfg es' (run cfg es w)"
  by (induction es arbitrary: w) auto

lemma channelD:
  assumes "channel w sid = Some (pid, qv, out)"
  obtains s where "sessions w sid = Some s" "proc s = pid" "q s = qv" "pid < length (procs w)"
    "alive (procs w ! pid)" "stdout (procs w ! pid) = out"
  using assms by (auto simp: channel_def split: option.splits if_splits)

lemma channel_exec:
  assumes "channel w sid = Some (pid, qv, out)"
  shows "channel (snd (term_exec cfg sid cmd w)) sid = Some (pid, qv, out)"
proof -
  from assms obtain s where s: "sessions w sid = Some s" "proc s = pid" "q s = qv"
    "pid < length (procs w)" "alive (procs w ! pid)" "stdout (procs w ! pid) = out"
    by (rule channelD)
  then show ?thesis
    by (simp add: term_exec_def send_def channel_def)
qed

lemma channel_emit:
  assumes "channel w sid = Some (pid, qv, out)"
  shows "channel (proc_emit pid l w) sid = Some (pid, qv, out @ [l])"
proof -
  from assms obtain s where s: "sessions w sid = Some s" "proc s = pid" "q s = qv"
    "pid < length (procs w)" "alive (procs w ! pid)" "stdout (procs w ! pid) = out"
    by (rule channelD)
  then show ?thesis
    by (simp add: proc_emit_def channel_def)
qed

lemma channel_emits:
  "channel w sid = Some (pid, qv, out) \<Longrightarrow>
     channel (run cfg (map (Emit pid) ls) w) sid = Some (pid, qv, out @ ls)"
proof (induction ls arbitrary: w out)
  case Nil
  then show ?case by simp
next
  case (Cons l ls)
  from Cons.prems have "channel (proc_emit pid l w) sid = Some (pid, qv, out @ [l])"
    by (rule channel_emit)
  from Cons.IH [OF this] show ?case
    by simp
qed

lemma channel_pump:
  assumes "channel w sid = Some (pid, qv, l # out)"
  shows "channel (pump_step sid w) sid = Some (pid, qv @ [l], out)"
proof -
  from assms obtain s where s: "sessions w sid = Some s" "proc s = pid" "q s = qv"
    "pid < length (procs w)" "alive (procs w ! pid)" "stdout (procs w ! pid) = l # out"
    by (rule channelD)
  then show ?thesis
    by (simp add: pump_step_def pump_def channel_def)
qed

lemma channel_pumps:
  "channel w sid = Some (pid, qv, out) \<Longrightarrow>
     channel (run cfg (replicate (length out) (Pump sid)) w) sid = Some (pid, qv @ out, [])"
proof (induction out arbitrary: w qv)
  case Nil
  then show ?case by simp
next
  case (Cons l out)
  from Cons.prems have "channel (pump_step sid w) sid = Some (pid, qv @ [l], out)"
    by (rule channel_pump)
  from Cons.IH [OF this] show ?case
    by simp
qed

lemma channel_read:
  assumes "channel w sid = Some (pid, qv, out)"
  shows "fst (term_read sid w) = Inr (Output (concat (take 400 qv)))"
proof -
  from assms obtain s where s: "sessions w sid = Some s" "q s = qv"
    by (rule channelD)
  then show ?thesis
    by (simp add: term_read_def session_read_eq)
qed

lemma two_execs_one_read:
  assumes s: "sessions w sid = Some s" and p: "proc s < length (procs w)"
    and a: "alive (procs w ! proc s)"
  shows "fst (step cfg (Read sid)
      (run cfg ([Exec sid c1] @ map (Emit (proc s)) ls1 @ [Exec sid c2] @ map (Emit (proc s)) ls2 @
                replicate (length (stdout (procs w ! proc s)) + length ls1 + length ls2) (Pump sid)) w))
    = Inr (Output (concat (take 400 (q s @ stdout (procs w ! proc s) @ ls1 @ ls2))))"
proof -
  let ?pid = "proc s" and ?out = "stdout (procs w ! proc s)"
  from s p a have 0: "channel w sid = Some (?pid, q s, ?out)"
    by (simp add: channel_def)
  let ?w1 = "run cfg [Exec sid c1] w"
  from 0 have 1: "channel ?w1 sid = Some (?pid, q s, ?out)"
    by (simp add: channel_exec)
  let ?w2 = "run cfg (map (Emit ?pid) ls1) ?w1"
  from 1 have 2: "channel ?w2 sid = Some (?pid, q s, ?out @ ls1)"
    by (rule channel_emits)
  let ?w3 = "run cfg [Exec sid c2] ?w2"
  from 2 have 3: "channel ?w3 sid = Some (?pid, q s, ?out @ ls1)"
    by (simp add: channel_exec)
  let ?w4 = "run cfg (map (Emit ?pid) ls2) ?w3"
  from 3 have 4: "channel ?w4 sid = Some (?pid, q s, (?out @ ls1) @ ls2)"
    by (rule channel_emits)
  let ?w5 = "run cfg (replicate (length ((?out @ ls1) @ ls2)) (Pump sid)) ?w4"
  from 4 have 5: "channel ?w5 sid = Some (?pid, q s @ (?out @ ls1) @ ls2, [])"
    by (rule channel_pumps)
  have "run cfg ([Exec sid c1] @ map (Emit ?pid) ls1 @ [Exec sid c2] @ map (Emit ?pid) ls2 @
                replicate (length ?out + length ls1 + length ls2) (Pump sid)) w = ?w5"
    by (simp only: run_append length_append add.assoc)
  with channel_read [OF 5] show ?thesis
    by simp
qed

lemma pumped_then_read:
  "chan_run (map ProcWrite ls @ replicate (length out + length ls) PumpLine @ [SessRead n]) (out, s)
     = ([concat (take (nat n) (q s @ out @ ls))], ([], s\<lparr>q := drop (nat n) (q s @ out @ ls)\<rparr>))"
proof -
  have w: "chan_run (map ProcWrite xs @ es) (o1, t) = chan_run es (o1 @ xs, t)" for xs es o1 t
    by (induction xs arbitrary: o1) auto
  have p: "chan_run (replicate (length o1) PumpLine @ es) (o1, t) = chan_run es ([], t\<lparr>q := q t @ o1\<rparr>)"
    for es o1 t
    by (induction o1 arbitrary: t) (auto simp: pump_def)
  have "chan_run (map ProcWrite ls @ replicate (length out + length ls) PumpLine @ [SessRead n]) (out, s)
      = chan_run (replicate (length (out @ ls)) PumpLine @ [SessRead n]) (out @ ls, s)"
    by (simp add: w)
  also have "\<dots> = chan_run [SessRead n] ([], s\<lparr>q := q s @ out @ ls\<rparr>)"
    by (rule p)
  also have "\<dots> = ([concat (take (nat n) (q s @ out @ ls))], ([], s\<lparr>q := drop (nat n) (q s @ out @ ls)\<rparr>))"
    by (simp add: session_read_eq)
  finally show ?thesis .
qed

text \<open>
  C6. \<open>ShellSession.read\<close> is a function of the lines buffered at the call: it returns
  the first \<open>max_lines\<close> of them (all of them when there are fewer, none when
  \<open>max_lines\<close> is not positive), concatenated in queue order, and leaves the others in the
  queue; on an empty queue it returns the empty string and does not wait for the process.
  The reader thread appends each line of the output to the end of the queue. Over any
  interleaving of the process writing lines, the reader thread moving them and the caller
  reading, the texts returned by the reads, followed by what is still in the queue and in
  the output, are the lines the process wrote, in the order it wrote them; and once the
  reader thread has moved every line written, one read returns the first \<open>max_lines\<close>
  of what was buffered followed by what was written. For the manager: on a session whose
  process runs, after two \<open>exec\<close> calls, each followed by lines of output, and after the
  reader thread has moved them, one \<open>read\<close> returns the buffered lines and then the
  output of the first and of the second command, up to 400 lines, concatenated.
\<close>

theorem session_read_drains_in_order:
  "session_read s max_lines = (concat (take (nat max_lines) (q s)), s\<lparr>q := drop (nat max_lines) (q s)\<rparr>) \<and>
   session_read (s\<lparr>q := []\<rparr>) max_lines = ([], s\<lparr>q := []\<rparr>) \<and>
   pump (line # rest) s = (rest, s\<lparr>q := q s @ [line]\<rparr>) \<and>
   concat (fst (chan_run es (out, s))) @ concat (q (snd (snd (chan_run es (out, s)))))
     @ concat (fst (snd (chan_run es (out, s))))
   = concat (q s) @ concat out @ concat (written es) \<and>
   chan_run (map ProcWrite ls @ replicate (length out + length ls) PumpLine @ [SessRead max_lines]) (out, s)
   = ([concat (take (nat max_lines) (q s @ out @ ls))],
      ([], s\<lparr>q := drop (nat max_lines) (q s @ out @ ls)\<rparr>)) \<and>
   (sessions w sid = Some s \<and> proc s < length (procs w) \<and> alive (procs w ! proc s) \<longrightarrow>
      fst (step cfg (Read sid)
        (run cfg ([Exec sid c1] @ map (Emit (proc s)) ls1 @ [Exec sid c2] @ map (Emit (proc s)) ls2 @
                  replicate (length (stdout (procs w ! proc s)) + length ls1 + length ls2) (Pump sid)) w))
      = Inr (Output (concat (take 400 (q s @ stdout (procs w ! proc s) @ ls1 @ ls2)))))"
proof (intro conjI impI)
  show "session_read s max_lines
      = (concat (take (nat max_lines) (q s)), s\<lparr>q := drop (nat max_lines) (q s)\<rparr>)"
    by (rule session_read_eq)
  show "session_read (s\<lparr>q := []\<rparr>) max_lines = ([], s\<lparr>q := []\<rparr>)"
    by (simp add: session_read_eq)
  show "pump (line # rest) s = (rest, s\<lparr>q := q s @ [line]\<rparr>)"
    by (simp add: pump_def)
  show "concat (fst (chan_run es (out, s))) @ concat (q (snd (snd (chan_run es (out, s)))))
     @ concat (fst (snd (chan_run es (out, s))))
   = concat (q s) @ concat out @ concat (written es)"
    by (rule chan_run_order)
  show "chan_run (map ProcWrite ls @ replicate (length out + length ls) PumpLine @ [SessRead max_lines]) (out, s)
   = ([concat (take (nat max_lines) (q s @ out @ ls))],
      ([], s\<lparr>q := drop (nat max_lines) (q s @ out @ ls)\<rparr>))"
    by (rule pumped_then_read)
next
  assume "sessions w sid = Some s \<and> proc s < length (procs w) \<and> alive (procs w ! proc s)"
  then show "fst (step cfg (Read sid)
        (run cfg ([Exec sid c1] @ map (Emit (proc s)) ls1 @ [Exec sid c2] @ map (Emit (proc s)) ls2 @
                  replicate (length (stdout (procs w ! proc s)) + length ls1 + length ls2) (Pump sid)) w))
      = Inr (Output (concat (take 400 (q s @ stdout (procs w ! proc s) @ ls1 @ ls2))))"
    using two_execs_one_read by blast
qed

theorem session_read_drains_in_order_witness:
  "sessions opened_world ''s1'' = Some \<lparr>session_id = ''s1'', proc = 0, q = []\<rparr> \<and>
   0 < length (procs opened_world) \<and> alive (procs opened_world ! 0) \<and>
   fst (step cfg0 (Read ''s1'')
     (run cfg0 [Exec ''s1'' ''echo a'', Emit 0 ''a\<newline>'', Exec ''s1'' ''echo b'', Emit 0 ''b\<newline>'',
                Pump ''s1'', Pump ''s1''] opened_world))
   = Inr (Output ''a\<newline>b\<newline>'')"
proof -
  have w: "opened_world = \<lparr>sessions = [''s1'' \<mapsto> \<lparr>session_id = ''s1'', proc = 0, q = []\<rparr>],
      procs = [\<lparr>alive = True, stdin = [], stdout = []\<rparr>], programs = [''bash'']\<rparr>"
    by (simp add: opened_world_def init_def cfg0_def term_open_def new_session_def Popen_def)
  have h: "sessions opened_world ''s1'' = Some \<lparr>session_id = ''s1'', proc = 0, q = []\<rparr> \<and>
    proc \<lparr>session_id = ''s1'', proc = 0, q = []\<rparr> < length (procs opened_world) \<and>
    alive (procs opened_world ! proc \<lparr>session_id = ''s1'', proc = 0, q = []\<rparr>)"
    by (simp add: w)
  have o: "stdout (procs opened_world ! 0) = []"
    by (simp add: w)
  from session_read_drains_in_order [where w = opened_world and sid = "''s1''"
      and s = "\<lparr>session_id = ''s1'', proc = 0, q = []\<rparr>" and cfg = cfg0
      and ?c1.0 = "''echo a''" and ?c2.0 = "''echo b''"
      and ?ls1.0 = "[''a\<newline>'']" and ?ls2.0 = "[''b\<newline>'']"] h o
  have "fst (step cfg0 (Read ''s1'')
     (run cfg0 [Exec ''s1'' ''echo a'', Emit 0 ''a\<newline>'', Exec ''s1'' ''echo b'', Emit 0 ''b\<newline>'',
                Pump ''s1'', Pump ''s1''] opened_world))
   = Inr (Output ''a\<newline>b\<newline>'')"
    by (simp add: numeral_2_eq_2 del: step.simps run.simps)
  with h show ?thesis
    by simp
qed

text \<open>Two \<open>exec\<close> calls, then their output, buffered, then one \<open>read\<close>.\<close>

lemma two_execs_then_read:
  "fst (step cfg0 (Read ''s1'')
     (run cfg0 [Open ''s1'', Exec ''s1'' ''echo a'', Exec ''s1'' ''echo b'',
                Emit 0 ''a\<newline>'', Emit 0 ''b\<newline>'', Pump ''s1'', Pump ''s1''] (init [''bash''])))
   = Inr (Output ''a\<newline>b\<newline>'')"
  by (simp add: init_def cfg0_def term_open_def term_exec_def term_read_def new_session_def Popen_def
      send_def proc_emit_def pump_step_def pump_def session_read_def)


subsection \<open>Sessions that are not in the table\<close>

lemma demo_world_eq:
  "demo_world = \<lparr>sessions = [''s1'' \<mapsto> \<lparr>session_id = ''s1'', proc = 0, q = [''hi\<newline>'']\<rparr>,
                               ''s2'' \<mapsto> \<lparr>session_id = ''s2'', proc = 1, q = []\<rparr>],
                   procs = [\<lparr>alive = True, stdin = [''echo hi\<newline>''], stdout = []\<rparr>,
                            \<lparr>alive = True, stdin = [], stdout = []\<rparr>],
                   programs = [''bash'']\<rparr>"
  by (simp add: demo_world_def demo_events_def init_def cfg0_def term_open_def term_exec_def
      new_session_def Popen_def send_def proc_emit_def pump_step_def pump_def)

text \<open>
  C7. \<open>exec\<close> on an id that is not in the table starts a process for it (when the shell
  can be started), registers a session with an empty queue under the id and writes the
  command and a newline to the new process; \<open>read\<close> on such an id returns the empty
  output and changes nothing; after \<open>close\<close> the id is not in the table, so both hold
  for a closed id, whatever its session had buffered.
\<close>

theorem exec_opens_fresh_session:
  "(sessions w sid = None \<and> shell cfg \<in> set (programs w) \<longrightarrow>
      term_exec cfg sid command w =
        (Inr Ok, w\<lparr>procs := procs w @ [\<lparr>alive = True, stdin = [command @ [CHR 0x0A]], stdout = []\<rparr>],
                    sessions := (sessions w)(sid \<mapsto> \<lparr>session_id = sid, proc = length (procs w), q = []\<rparr>)\<rparr>)) \<and>
   (sessions w sid = None \<longrightarrow> term_read sid w = (Inr (Output []), w)) \<and>
   sessions (snd (term_close sid w)) sid = None \<and>
   programs (snd (term_close sid w)) = programs w"
  by (auto simp: term_exec_def term_read_def term_close_def new_session_def Popen_def send_def
      session_close_def terminate_def split: option.splits)

theorem exec_opens_fresh_session_witness:
  "sessions (snd (term_close ''s1'' demo_world)) ''s1'' = None \<and>
   shell cfg0 \<in> set (programs (snd (term_close ''s1'' demo_world))) \<and>
   term_read ''s1'' (snd (term_close ''s1'' demo_world)) =
     (Inr (Output []), snd (term_close ''s1'' demo_world)) \<and>
   fst (term_exec cfg0 ''s1'' ''ls'' (snd (term_close ''s1'' demo_world))) = Inr Ok \<and>
   sessions (snd (term_exec cfg0 ''s1'' ''ls'' (snd (term_close ''s1'' demo_world)))) ''s1''
     = Some \<lparr>session_id = ''s1'', proc = 2, q = []\<rparr> \<and>
   procs (snd (term_exec cfg0 ''s1'' ''ls'' (snd (term_close ''s1'' demo_world)))) ! 2
     = \<lparr>alive = True, stdin = [''ls\<newline>''], stdout = []\<rparr>"
proof -
  let ?w = "snd (term_close ''s1'' demo_world)"
  have h: "sessions ?w ''s1'' = None" "shell cfg0 \<in> set (programs ?w)"
    using exec_opens_fresh_session [of demo_world "''s1''"]
    by (simp_all add: demo_world_eq cfg0_def)
  have l: "length (procs ?w) = 2"
    by (simp add: demo_world_eq term_close_def session_close_def send_def terminate_def)
  from h l exec_opens_fresh_session [of ?w "''s1''" cfg0 "''ls''"] show ?thesis
    by (simp add: nth_append)
qed


subsection \<open>The table of sessions in reachable states\<close>

lemma consistent_mono: "consistent X w \<Longrightarrow> X \<subseteq> Y \<Longrightarrow> consistent Y w"
  unfolding consistent_def by blast

lemma consistent_init: "consistent {} (init progs)"
  by (simp add: consistent_def init_def)

lemma consistentD1: "consistent X w \<Longrightarrow> sessions w sid = Some s \<Longrightarrow> proc s < length (procs w)"
  unfolding consistent_def by blast

lemma consistentD2:
  "consistent X w \<Longrightarrow> sessions w sid = Some s \<Longrightarrow> proc s \<notin> X \<Longrightarrow> alive (procs w ! proc s)"
  unfolding consistent_def by blast

lemma consistentD3:
  "consistent X w \<Longrightarrow> sessions w sid = Some s \<Longrightarrow> sessions w sid' = Some s' \<Longrightarrow> proc s' = proc s
    \<Longrightarrow> sid' = sid"
  unfolding consistent_def by blast

lemma consistentI:
  assumes "\<And>sid s. sessions w sid = Some s \<Longrightarrow> proc s < length (procs w)"
    and "\<And>sid s. sessions w sid = Some s \<Longrightarrow> proc s \<notin> X \<Longrightarrow> alive (procs w ! proc s)"
    and "\<And>sid s sid' s'. sessions w sid = Some s \<Longrightarrow> sessions w sid' = Some s' \<Longrightarrow> proc s' = proc s
      \<Longrightarrow> sid' = sid"
  shows "consistent X w"
  unfolding consistent_def using assms by blast

lemma spawn_consistent:
  assumes c: "consistent X w" and fresh: "sessions w sid = None" and a: "alive p"
    and s: "proc s = length (procs w)"
  shows "consistent X (w\<lparr>procs := procs w @ [p], sessions := (sessions w)(sid \<mapsto> s)\<rparr>)"
proof (rule consistentI)
  fix sid0 s0
  assume h: "sessions (w\<lparr>procs := procs w @ [p], sessions := (sessions w)(sid \<mapsto> s)\<rparr>) sid0 = Some s0"
  show "proc s0 < length (procs (w\<lparr>procs := procs w @ [p], sessions := (sessions w)(sid \<mapsto> s)\<rparr>))"
    using h s consistentD1 [OF c, of sid0 s0] by (auto split: if_splits)
  show "alive (procs (w\<lparr>procs := procs w @ [p], sessions := (sessions w)(sid \<mapsto> s)\<rparr>) ! proc s0)"
    if "proc s0 \<notin> X"
    using that h s a consistentD1 [OF c, of sid0 s0] consistentD2 [OF c, of sid0 s0]
    by (auto simp: nth_append split: if_splits)
next
  fix sid0 s0 sid1 s1
  assume h: "sessions (w\<lparr>procs := procs w @ [p], sessions := (sessions w)(sid \<mapsto> s)\<rparr>) sid0 = Some s0"
    "sessions (w\<lparr>procs := procs w @ [p], sessions := (sessions w)(sid \<mapsto> s)\<rparr>) sid1 = Some s1"
    "proc s1 = proc s0"
  then show "sid1 = sid0"
    using s consistentD1 [OF c, of sid0 s0] consistentD1 [OF c, of sid1 s1]
      consistentD3 [OF c, of sid0 s0 sid1 s1]
    by (auto split: if_splits)
qed

lemma new_session_result:
  "new_session cfg sid w = (Inr s, w') \<Longrightarrow>
     s = \<lparr>session_id = sid, proc = length (procs w), q = []\<rparr> \<and>
     w' = w\<lparr>procs := procs w @ [\<lparr>alive = True, stdin = [], stdout = []\<rparr>]\<rparr>"
  by (auto simp: new_session_def Popen_def split: if_splits)

lemma new_session_consistent:
  assumes "consistent X w" and "sessions w sid = None" and "new_session cfg sid w = (Inr s, w')"
  shows "consistent X (w'\<lparr>sessions := (sessions w')(sid \<mapsto> s)\<rparr>)"
proof -
  from assms(3) have s: "proc s = length (procs w)"
    and w': "w' = w\<lparr>procs := procs w @ [\<lparr>alive = True, stdin = [], stdout = []\<rparr>]\<rparr>"
    using new_session_result by fastforce+
  show ?thesis
    using spawn_consistent [OF assms(1,2) _ s, of "\<lparr>alive = True, stdin = [], stdout = []\<rparr>"] w'
    by simp
qed

lemma new_session_fail: "new_session cfg sid w = (Inl e, w') \<Longrightarrow> w' = w"
  by (auto simp: new_session_def Popen_def split: if_splits)

lemma open_consistent:
  assumes "consistent X w"
  shows "consistent X (snd (term_open cfg sid w))"
proof (cases "allow_shell cfg \<and> sessions w sid = None")
  case False
  with assms show ?thesis
    by (auto simp: term_open_def)
next
  case True
  obtain r w' where n: "new_session cfg sid w = (r, w')"
    by (cases "new_session cfg sid w")
  show ?thesis
  proof (cases r)
    case (Inl e)
    with n have "w' = w"
      using new_session_fail by blast
    with Inl n True assms show ?thesis
      by (simp add: term_open_def)
  next
    case (Inr s)
    with n True assms new_session_consistent [of X w sid cfg s w'] show ?thesis
      by (simp add: term_open_def)
  qed
qed

lemma requeue_consistent:
  assumes c: "consistent X w" and s: "sessions w sid = Some s" and p: "proc s' = proc s"
  shows "consistent X (w\<lparr>sessions := (sessions w)(sid \<mapsto> s')\<rparr>)"
proof -
  let ?w = "w\<lparr>sessions := (sessions w)(sid \<mapsto> s')\<rparr>"
  have old: "\<exists>t. sessions w sid0 = Some t \<and> proc t = proc s0" if "sessions ?w sid0 = Some s0" for sid0 s0
  proof (cases "sid0 = sid")
    case True
    with that s p show ?thesis by simp
  next
    case False
    with that show ?thesis by simp
  qed
  show ?thesis
  proof (rule consistentI)
    fix sid0 s0
    assume h: "sessions ?w sid0 = Some s0"
    from old [OF h] obtain t where t: "sessions w sid0 = Some t" "proc t = proc s0"
      by blast
    show "proc s0 < length (procs ?w)"
      using consistentD1 [OF c t(1)] t(2) by simp
    show "alive (procs ?w ! proc s0)" if "proc s0 \<notin> X"
      using consistentD2 [OF c t(1)] t(2) that by simp
  next
    fix sid0 s0 sid1 s1
    assume h: "sessions ?w sid0 = Some s0" "sessions ?w sid1 = Some s1" "proc s1 = proc s0"
    from old [OF h(1)] obtain t0 where t0: "sessions w sid0 = Some t0" "proc t0 = proc s0"
      by blast
    from old [OF h(2)] obtain t1 where t1: "sessions w sid1 = Some t1" "proc t1 = proc s1"
      by blast
    show "sid1 = sid0"
      using consistentD3 [OF c t0(1) t1(1)] t0(2) t1(2) h(3) by simp
  qed
qed

lemma procs_update_consistent:
  assumes c: "consistent X w" and a: "alive p = alive (procs w ! i)"
  shows "consistent X (w\<lparr>procs := (procs w)[i := p]\<rparr>)"
proof (rule consistentI)
  fix sid0 s0
  assume h: "sessions (w\<lparr>procs := (procs w)[i := p]\<rparr>) sid0 = Some s0"
  show "proc s0 < length (procs (w\<lparr>procs := (procs w)[i := p]\<rparr>))"
    using h consistentD1 [OF c, of sid0 s0] by simp
  show "alive (procs (w\<lparr>procs := (procs w)[i := p]\<rparr>) ! proc s0)" if "proc s0 \<notin> X"
    using that h a consistentD1 [OF c, of sid0 s0] consistentD2 [OF c, of sid0 s0]
    by (cases "i = proc s0") simp_all
next
  fix sid0 s0 sid1 s1
  assume "sessions (w\<lparr>procs := (procs w)[i := p]\<rparr>) sid0 = Some s0"
    "sessions (w\<lparr>procs := (procs w)[i := p]\<rparr>) sid1 = Some s1"
    "proc s1 = proc s0"
  then show "sid1 = sid0"
    using consistentD3 [OF c, of sid0 s0 sid1 s1] by simp
qed

lemma send_sessions: "sessions (snd (send s c w)) = sessions w"
  by (simp add: send_def)

lemma send_length: "length (procs (snd (send s c w))) = length (procs w)"
  by (simp add: send_def)

lemma send_alive: "i < length (procs w) \<Longrightarrow> alive (procs (snd (send s c w)) ! i) = alive (procs w ! i)"
  by (simp add: send_def nth_list_update)

lemma send_consistent: "consistent X w \<Longrightarrow> consistent X (snd (send s c w))"
  by (simp add: send_def procs_update_consistent)

lemma exec_consistent:
  assumes "consistent X w"
  shows "consistent X (snd (term_exec cfg sid c w))"
proof (cases "sessions w sid")
  case (Some s)
  then have "snd (term_exec cfg sid c w) = snd (send s c w)"
    by (simp add: term_exec_def split: prod.splits sum.splits)
  with assms show ?thesis
    by (simp add: send_consistent)
next
  case None
  show ?thesis
  proof (cases "new_session cfg sid w")
    case (Pair r w')
    show ?thesis
    proof (cases r)
      case (Inl e)
      with Pair have "w' = w"
        using new_session_fail by blast
      with Inl Pair None assms show ?thesis
        by (simp add: term_exec_def)
    next
      case (Inr s)
      with Pair None have "snd (term_exec cfg sid c w) = snd (send s c (w'\<lparr>sessions := (sessions w')(sid \<mapsto> s)\<rparr>))"
        by (simp add: term_exec_def split: prod.splits sum.splits)
      with Pair None Inr assms show ?thesis
        using new_session_consistent send_consistent by metis
    qed
  qed
qed

lemma read_consistent: "consistent X w \<Longrightarrow> consistent X (snd (term_read sid w))"
  by (auto simp: term_read_def session_read_eq requeue_consistent split: option.splits)

lemma terminate_sessions: "sessions (terminate pid w) = sessions w"
  by (simp add: terminate_def)

lemma terminate_consistent:
  assumes c: "consistent X w"
  shows "consistent (insert pid X) (terminate pid w)"
proof (rule consistentI)
  fix sid0 s0
  assume h: "sessions (terminate pid w) sid0 = Some s0"
  show "proc s0 < length (procs (terminate pid w))"
    using h consistentD1 [OF c, of sid0 s0] by (auto simp: terminate_def split: if_splits)
  show "alive (procs (terminate pid w) ! proc s0)" if "proc s0 \<notin> insert pid X"
    using that h consistentD2 [OF c, of sid0 s0] by (auto simp: terminate_def split: if_splits)
next
  fix sid0 s0 sid1 s1
  assume "sessions (terminate pid w) sid0 = Some s0" "sessions (terminate pid w) sid1 = Some s1"
    "proc s1 = proc s0"
  then show "sid1 = sid0"
    using consistentD3 [OF c, of sid0 s0 sid1 s1] by (auto simp: terminate_def split: if_splits)
qed

lemma terminate_unused:
  assumes c: "consistent X w" and u: "\<forall>sid s. sessions w sid = Some s \<longrightarrow> proc s \<noteq> pid"
  shows "consistent X (terminate pid w)"
proof (rule consistentI)
  fix sid0 s0
  assume h: "sessions (terminate pid w) sid0 = Some s0"
  show "proc s0 < length (procs (terminate pid w))"
    using h consistentD1 [OF c, of sid0 s0] by (auto simp: terminate_def split: if_splits)
  show "alive (procs (terminate pid w) ! proc s0)" if "proc s0 \<notin> X"
    using that h u [rule_format, of sid0 s0] consistentD2 [OF c, of sid0 s0]
    by (auto simp: terminate_def split: if_splits)
next
  fix sid0 s0 sid1 s1
  assume "sessions (terminate pid w) sid0 = Some s0" "sessions (terminate pid w) sid1 = Some s1"
    "proc s1 = proc s0"
  then show "sid1 = sid0"
    using consistentD3 [OF c, of sid0 s0 sid1 s1] by (auto simp: terminate_def split: if_splits)
qed

lemma remove_consistent:
  assumes c: "consistent X w"
  shows "consistent X (w\<lparr>sessions := (sessions w)(sid := None)\<rparr>)"
proof (rule consistentI)
  fix sid0 s0
  assume h: "sessions (w\<lparr>sessions := (sessions w)(sid := None)\<rparr>) sid0 = Some s0"
  show "proc s0 < length (procs (w\<lparr>sessions := (sessions w)(sid := None)\<rparr>))"
    using h consistentD1 [OF c, of sid0 s0] by (auto split: if_splits)
  show "alive (procs (w\<lparr>sessions := (sessions w)(sid := None)\<rparr>) ! proc s0)" if "proc s0 \<notin> X"
    using that h consistentD2 [OF c, of sid0 s0] by (auto split: if_splits)
next
  fix sid0 s0 sid1 s1
  assume "sessions (w\<lparr>sessions := (sessions w)(sid := None)\<rparr>) sid0 = Some s0"
    "sessions (w\<lparr>sessions := (sessions w)(sid := None)\<rparr>) sid1 = Some s1"
    "proc s1 = proc s0"
  then show "sid1 = sid0"
    using consistentD3 [OF c, of sid0 s0 sid1 s1] by (auto split: if_splits)
qed

lemma close_consistent:
  assumes "consistent X w"
  shows "consistent X (snd (term_close sid w))"
proof (cases "sessions w sid")
  case None
  with assms show ?thesis by (simp add: term_close_def)
next
  case (Some s)
  let ?w = "w\<lparr>sessions := (sessions w)(sid := None)\<rparr>"
  have c: "consistent X ?w"
    using assms by (rule remove_consistent)
  have unused: "\<forall>sid' s'. sessions ?w sid' = Some s' \<longrightarrow> proc s' \<noteq> proc s"
    using consistentD3 [OF assms Some] by (auto split: if_splits)
  then have unused': "\<forall>sid' s'. sessions (snd (send s ''exit'' ?w)) sid' = Some s' \<longrightarrow> proc s' \<noteq> proc s"
    by (simp only: send_sessions) 
  have "consistent X (session_close s ?w)"
    unfolding session_close_def
    using c unused' by (auto intro!: terminate_unused send_consistent)
  with Some show ?thesis
    by (simp add: term_close_def)
qed

lemma emit_consistent: "consistent X w \<Longrightarrow> consistent X (proc_emit pid line w)"
  by (simp add: proc_emit_def procs_update_consistent)

lemma pump_consistent:
  assumes c: "consistent X w"
  shows "consistent X (pump_step sid w)"
proof (cases "sessions w sid")
  case None
  with c show ?thesis by (simp add: pump_step_def)
next
  case (Some s)
  show ?thesis
  proof (cases "proc s < length (procs w)")
    case False
    with Some c show ?thesis by (simp add: pump_step_def)
  next
    case True
    obtain rest s' where p: "pump (stdout (procs w ! proc s)) s = (rest, s')"
      by (cases "pump (stdout (procs w ! proc s)) s")
    then have ps: "proc s' = proc s"
      by (auto simp: pump_def split: list.splits)
    let ?w1 = "w\<lparr>sessions := (sessions w)(sid \<mapsto> s')\<rparr>"
    have "consistent X ?w1"
      using c Some ps by (rule requeue_consistent)
    then have "consistent X (?w1\<lparr>procs := (procs ?w1)[proc s := (procs w ! proc s)\<lparr>stdout := rest\<rparr>]\<rparr>)"
      by (rule procs_update_consistent) simp
    with Some True p show ?thesis
      by (simp add: pump_step_def)
  qed
qed

lemma step_consistent: "consistent X w \<Longrightarrow> consistent (X \<union> exits e) (snd (step cfg e w))"
  by (cases e)
    (simp_all add: open_consistent exec_consistent read_consistent close_consistent
      emit_consistent pump_consistent terminate_consistent)

lemma run_consistent:
  "consistent X w \<Longrightarrow> consistent (X \<union> {pid. Exit pid \<in> set es}) (run cfg es w)"
proof (induction es arbitrary: X w)
  case Nil
  then show ?case by simp
next
  case (Cons e es)
  from Cons.prems have "consistent (X \<union> exits e) (snd (step cfg e w))"
    by (rule step_consistent)
  then have "consistent ((X \<union> exits e) \<union> {pid. Exit pid \<in> set es}) (run cfg es (snd (step cfg e w)))"
    by (rule Cons.IH)
  moreover have "(X \<union> exits e) \<union> {pid. Exit pid \<in> set es} \<subseteq> X \<union> {pid. Exit pid \<in> set (e # es)}"
    by (cases e) auto
  ultimately show ?case
    using consistent_mono by simp
qed

lemma close_kills:
  assumes "sessions w sid = Some s" and "proc s < length (procs w)"
  shows "\<not> alive (procs (snd (term_close sid w)) ! proc s)"
  using assms
  by (simp add: term_close_def session_close_def terminate_def send_def)

text \<open>What leaves the table of sessions as it is.\<close>

lemma new_session_sessions: "sessions (snd (new_session cfg sid w)) = sessions w"
  by (simp add: new_session_def Popen_def)

lemma session_close_sessions: "sessions (session_close s w) = sessions w"
  by (simp add: session_close_def terminate_sessions send_sessions)

lemma open_keeps_session:
  "sessions w sid \<noteq> None \<Longrightarrow> sessions (snd (term_open cfg sid' w)) sid \<noteq> None"
  by (auto simp: term_open_def new_session_def Popen_def split: if_splits)

lemma exec_keeps_session:
  assumes "sessions w sid \<noteq> None"
  shows "sessions (snd (term_exec cfg sid' c w)) sid \<noteq> None"
proof (cases "sessions w sid'")
  case (Some s)
  then have "snd (term_exec cfg sid' c w) = snd (send s c w)"
    by (simp add: term_exec_def split: prod.splits sum.splits)
  with assms show ?thesis
    by (simp add: send_sessions)
next
  case None
  obtain r w' where n: "new_session cfg sid' w = (r, w')"
    by (cases "new_session cfg sid' w")
  then have w': "sessions w' = sessions w"
    using new_session_sessions [of cfg sid' w] by simp
  show ?thesis
  proof (cases r)
    case (Inl e)
    with n None assms w' show ?thesis
      by (simp add: term_exec_def)
  next
    case (Inr s)
    with n None have "snd (term_exec cfg sid' c w) = snd (send s c (w'\<lparr>sessions := (sessions w')(sid' \<mapsto> s)\<rparr>))"
      by (simp add: term_exec_def split: prod.splits sum.splits)
    with assms w' show ?thesis
      by (simp add: send_sessions)
  qed
qed

lemma read_keeps_session:
  "sessions w sid \<noteq> None \<Longrightarrow> sessions (snd (term_read sid' w)) sid \<noteq> None"
  by (auto simp: term_read_def session_read_eq split: option.splits)

lemma close_keeps_other:
  "sid' \<noteq> sid \<Longrightarrow> sessions w sid \<noteq> None \<Longrightarrow> sessions (snd (term_close sid' w)) sid \<noteq> None"
  by (auto simp: term_close_def session_close_sessions split: option.splits)

lemma pump_keeps_session:
  "sessions w sid \<noteq> None \<Longrightarrow> sessions (pump_step sid' w) sid \<noteq> None"
  by (auto simp: pump_step_def pump_def split: option.splits list.splits)

lemma step_keeps_session:
  assumes "e \<noteq> Close sid" and "sessions w sid \<noteq> None"
  shows "sessions (snd (step cfg e w)) sid \<noteq> None"
proof (cases e)
  case (Open x)
  with assms show ?thesis by (simp add: open_keeps_session)
next
  case (Exec x c)
  with assms show ?thesis by (simp add: exec_keeps_session)
next
  case (Read x)
  with assms show ?thesis by (simp add: read_keeps_session)
next
  case (Close x)
  with assms show ?thesis by (simp add: close_keeps_other)
next
  case (Emit pid l)
  with assms show ?thesis by (simp add: proc_emit_def)
next
  case (Pump x)
  with assms show ?thesis by (simp add: pump_keeps_session)
next
  case (Exit pid)
  with assms show ?thesis by (simp add: terminate_sessions)
qed

lemma read_after_close: "fst (term_read sid (snd (term_close sid w))) = Inr (Output [])"
  by (simp add: term_read_def term_close_def session_close_sessions split: option.splits)

lemma open_disallowed: "\<not> allow_shell cfg \<Longrightarrow> term_open cfg sid w = (Inl PermissionError, w)"
  by (simp add: term_open_def)

text \<open>
  C8, as amended. In every state the manager reaches from its initial state, a session id
  in the table maps to exactly one started process, which no other id shares and which is
  alive unless it has exited by itself. \<open>open\<close> on an id in the table starts no second
  process and changes nothing: it returns success with \<open>existing\<close> when the shell is
  allowed, and it raises \<open>PermissionError\<close>, whatever the table holds, when
  \<open>allow_shell\<close> is false (an id can be in the table then, since \<open>exec\<close> does not test
  the flag). \<open>close\<close> removes the id from the table, with its queue, so that a \<open>read\<close>
  after it returns the empty output, and leaves its process dead. Nothing but the
  \<open>close\<close> of an id removes it from the table; in particular a process that exits by
  itself leaves the table of sessions as it is.
\<close>

theorem session_table_invariant:
  "w = run cfg es (init progs) \<Longrightarrow>
   (sessions w sid = Some s \<longrightarrow>
      proc s < length (procs w) \<and>
      (Exit (proc s) \<notin> set es \<longrightarrow> alive (procs w ! proc s)) \<and>
      (\<forall>sid' s'. sessions w sid' = Some s' \<and> proc s' = proc s \<longrightarrow> sid' = sid) \<and>
      \<not> alive (procs (snd (term_close sid w)) ! proc s)) \<and>
   (allow_shell cfg \<and> sessions w sid \<noteq> None \<longrightarrow> term_open cfg sid w = (Inr OkExisting, w)) \<and>
   (\<not> allow_shell cfg \<longrightarrow> term_open cfg sid w = (Inl PermissionError, w)) \<and>
   sessions (snd (term_close sid w)) sid = None \<and>
   fst (term_read sid (snd (term_close sid w))) = Inr (Output []) \<and>
   (e \<noteq> Close sid \<and> sessions w sid \<noteq> None \<longrightarrow> sessions (snd (step cfg e w)) sid \<noteq> None) \<and>
   sessions (snd (step cfg (Exit pid) w)) = sessions w"
proof -
  assume w: "w = run cfg es (init progs)"
  have "consistent ({} \<union> {pid. Exit pid \<in> set es}) (run cfg es (init progs))"
    using consistent_init by (rule run_consistent)
  with w have c: "consistent {pid. Exit pid \<in> set es} w"
    by simp
  have 1: "proc s < length (procs w)" if "sessions w sid = Some s"
    using c that by (rule consistentD1)
  have 2: "alive (procs w ! proc s)" if "sessions w sid = Some s" "Exit (proc s) \<notin> set es"
    using consistentD2 [OF c that(1)] that(2) by simp
  have 3: "\<forall>sid' s'. sessions w sid' = Some s' \<and> proc s' = proc s \<longrightarrow> sid' = sid"
    if "sessions w sid = Some s"
    using consistentD3 [OF c that] by blast
  have 4: "\<not> alive (procs (snd (term_close sid w)) ! proc s)" if "sessions w sid = Some s"
    using that 1 [OF that] by (rule close_kills)
  have 5: "term_open cfg sid w = (Inr OkExisting, w)" if "allow_shell cfg \<and> sessions w sid \<noteq> None"
    using that by (simp add: term_open_def)
  have 6: "sessions (snd (term_close sid w)) sid = None"
    by (simp add: term_close_def session_close_def terminate_def send_def split: option.splits)
  have 7: "sessions (snd (step cfg (Exit pid) w)) = sessions w"
    by (simp add: terminate_def)
  have 8: "term_open cfg sid w = (Inl PermissionError, w)" if "\<not> allow_shell cfg"
    using that by (rule open_disallowed)
  have 9: "fst (term_read sid (snd (term_close sid w))) = Inr (Output [])"
    by (rule read_after_close)
  have 10: "sessions (snd (step cfg e w)) sid \<noteq> None" if "e \<noteq> Close sid \<and> sessions w sid \<noteq> None"
    using that step_keeps_session by blast
  from 1 2 3 4 5 6 7 8 9 10 show ?thesis
    by blast
qed

theorem session_table_invariant_witness:
  "demo_world = run cfg0 demo_events (init [''bash'']) \<and>
   sessions demo_world ''s1'' = Some \<lparr>session_id = ''s1'', proc = 0, q = [''hi\<newline>'']\<rparr> \<and>
   Exit 0 \<notin> set demo_events \<and> alive (procs demo_world ! 0) \<and>
   sessions demo_world ''s2'' = Some \<lparr>session_id = ''s2'', proc = 1, q = []\<rparr> \<and>
   \<not> alive (procs (snd (term_close ''s1'' demo_world)) ! 0) \<and>
   allow_shell cfg0 \<and> term_open cfg0 ''s1'' demo_world = (Inr OkExisting, demo_world) \<and>
   sessions (snd (term_close ''s1'' demo_world)) ''s1'' = None \<and>
   fst (term_read ''s1'' (snd (term_close ''s1'' demo_world))) = Inr (Output []) \<and>
   Read ''s1'' \<noteq> Close ''s1'' \<and>
   sessions (snd (step cfg0 (Read ''s1'') demo_world)) ''s1'' \<noteq> None \<and>
   sessions (snd (step cfg0 (Exit 0) demo_world)) = sessions demo_world \<and>
   no_shell_world = run cfg_no_shell [Exec ''s1'' ''ls''] (init [''bash'']) \<and>
   sessions no_shell_world ''s1'' = Some \<lparr>session_id = ''s1'', proc = 0, q = []\<rparr> \<and>
   \<not> allow_shell cfg_no_shell \<and>
   term_open cfg_no_shell ''s1'' no_shell_world = (Inl PermissionError, no_shell_world)"
proof -
  have h: "demo_world = run cfg0 demo_events (init [''bash''])"
    by (simp add: demo_world_def)
  have s: "sessions demo_world ''s1'' = Some \<lparr>session_id = ''s1'', proc = 0, q = [''hi\<newline>'']\<rparr>"
    "sessions demo_world ''s2'' = Some \<lparr>session_id = ''s2'', proc = 1, q = []\<rparr>"
    "Exit 0 \<notin> set demo_events" "allow_shell cfg0"
    by (simp_all add: demo_world_eq demo_events_def cfg0_def)
  have ne: "sessions demo_world ''s1'' \<noteq> None"
    by (simp add: s)
  note t = session_table_invariant [OF h, where sid = "''s1''"
      and s = "\<lparr>session_id = ''s1'', proc = 0, q = [''hi\<newline>'']\<rparr>" and pid = 0
      and e = "Read ''s1''"]
  from t s have a: "alive (procs demo_world ! 0) \<and>
    \<not> alive (procs (snd (term_close ''s1'' demo_world)) ! 0) \<and>
    term_open cfg0 ''s1'' demo_world = (Inr OkExisting, demo_world) \<and>
    sessions (snd (term_close ''s1'' demo_world)) ''s1'' = None \<and>
    fst (term_read ''s1'' (snd (term_close ''s1'' demo_world))) = Inr (Output []) \<and>
    sessions (snd (step cfg0 (Exit 0) demo_world)) = sessions demo_world"
    by simp
  from t ne have b: "sessions (snd (step cfg0 (Read ''s1'') demo_world)) ''s1'' \<noteq> None"
    by blast
  have h2: "no_shell_world = run cfg_no_shell [Exec ''s1'' ''ls''] (init [''bash''])"
    by (simp add: no_shell_world_def)
  have n: "\<not> allow_shell cfg_no_shell"
    by (simp add: cfg_no_shell_def cfg0_def)
  have s2: "sessions no_shell_world ''s1'' = Some \<lparr>session_id = ''s1'', proc = 0, q = []\<rparr>"
    by (simp add: no_shell_world_def init_def cfg_no_shell_def cfg0_def term_exec_def
        new_session_def Popen_def send_def)
  from session_table_invariant [OF h2, where sid = "''s1''"] n
  have o: "term_open cfg_no_shell ''s1'' no_shell_world = (Inl PermissionError, no_shell_world)"
    by blast
  from h s a b h2 n s2 o show ?thesis
    by simp
qed

text \<open>
  C8 as stated fails: after \<open>open\<close> and the exit of the process, the id is still in the
  table and maps to a process that is not alive; the next \<open>exec\<close> on it raises. And with
  \<open>allow_shell\<close> false, \<open>exec\<close> opens a session and \<open>open\<close> on that id raises.
\<close>

theorem session_survives_process_exit:
  "map_option proc (sessions (run cfg0 [Open ''s1'', Exit 0] (init [''bash''])) ''s1'') = Some 0 \<and>
   \<not> alive (procs (run cfg0 [Open ''s1'', Exit 0] (init [''bash''])) ! 0) \<and>
   fst (term_exec cfg0 ''s1'' ''ls'' (run cfg0 [Open ''s1'', Exit 0] (init [''bash''])))
     = Inl BrokenPipeError \<and>
   map_option proc (sessions (run cfg_no_shell [Exec ''s1'' ''ls''] (init [''bash''])) ''s1'') = Some 0 \<and>
   fst (term_open cfg_no_shell ''s1'' (run cfg_no_shell [Exec ''s1'' ''ls''] (init [''bash''])))
     = Inl PermissionError"
  by (simp add: init_def cfg0_def cfg_no_shell_def term_open_def term_exec_def new_session_def
      Popen_def send_def terminate_def)

section \<open>Properties of the UTF-8 coding\<close>

lemma split3:
  fixes cp :: nat
  shows "cp = cp div 4096 * 4096 + (cp div 64) mod 64 * 64 + cp mod 64"
proof -
  have x: "cp div 4096 = cp div 64 div 64"
    by (simp add: div_mult2_eq)
  have c1: "cp = cp div 64 * 64 + cp mod 64"
    by simp
  have c2: "cp div 64 = cp div 64 div 64 * 64 + cp div 64 mod 64"
    by simp
  from c1 c2 x show ?thesis
    by linarith
qed

lemma split4:
  fixes cp :: nat
  shows "cp = cp div 262144 * 262144 + (cp div 4096) mod 64 * 4096 + (cp div 64) mod 64 * 64 + cp mod 64"
proof -
  have x: "cp div 262144 = cp div 4096 div 64"
    by (simp add: div_mult2_eq)
  have c2: "cp div 4096 = cp div 4096 div 64 * 64 + cp div 4096 mod 64"
    by simp
  from split3 [of cp] c2 x show ?thesis
    by linarith
qed


lemma decode_1: "cp < 0x80 \<Longrightarrow> utf8_decode (cp # rest) = map_option (Cons cp) (utf8_decode rest)"
  by simp

lemma decode_2:
  assumes "0x80 \<le> cp" "cp < 0x800"
  shows "utf8_decode ((0xC0 + cp div 64) # (0x80 + cp mod 64) # rest)
    = map_option (Cons cp) (utf8_decode rest)"
proof -
  have a: "2 \<le> cp div 64" "cp div 64 < 32"
    using assms by simp_all
  have b: "cp mod 64 < 64"
    by simp
  have c: "cp div 64 * 64 + cp mod 64 = cp"
    by simp
  from a b c show ?thesis
    by (simp add: cont_def)
qed

lemma decode_3:
  assumes "0x800 \<le> cp" "cp < 0x10000" "\<not> (0xD800 \<le> cp \<and> cp \<le> 0xDFFF)"
  shows "utf8_decode ((0xE0 + cp div 4096) # (0x80 + (cp div 64) mod 64) # (0x80 + cp mod 64) # rest)
    = map_option (Cons cp) (utf8_decode rest)"
proof -
  define a where "a = cp div 4096"
  define b where "b = (cp div 64) mod 64"
  define c where "c = cp mod 64"
  have cp: "cp = a * 4096 + b * 64 + c"
    unfolding a_def b_def c_def by (rule split3)
  have r: "a < 16" "b < 64" "c < 64"
    using assms unfolding a_def b_def c_def by simp_all
  have e0: "32 \<le> b" if "a = 0"
    using that assms(1) cp r by linarith
  have ed: "b < 32" if "a = 13"
    using that assms(3) cp r by linarith
  have h: "224 + a < 240" "224 \<le> 224 + a" "\<not> 224 + a < 128" "\<not> 224 + a < 224"
    using r by simp_all
  have k: "cont (128 + b)" "cont (128 + c)"
    using r by (simp_all add: cont_def)
  have g0: "160 \<le> 128 + b" if "224 + a = 224"
    using that e0 by simp
  have gd: "128 + b < 160" if "224 + a = 237"
    using that ed by simp
  have "utf8_decode ((224 + a) # (128 + b) # (128 + c) # rest)
    = map_option (Cons (a * 4096 + b * 64 + c)) (utf8_decode rest)"
    using h k g0 gd by (simp del: add_numeral_left)
  then show ?thesis
    unfolding cp [symmetric] unfolding a_def b_def c_def by simp
qed


lemma decode_4:
  assumes "0x10000 \<le> cp" "cp < 0x110000"
  shows "utf8_decode ((0xF0 + cp div 262144) # (0x80 + (cp div 4096) mod 64)
      # (0x80 + (cp div 64) mod 64) # (0x80 + cp mod 64) # rest)
    = map_option (Cons cp) (utf8_decode rest)"
proof -
  define a where "a = cp div 262144"
  define b where "b = (cp div 4096) mod 64"
  define c where "c = (cp div 64) mod 64"
  define d where "d = cp mod 64"
  have cp: "cp = a * 262144 + b * 4096 + c * 64 + d"
    unfolding a_def b_def c_def d_def by (rule split4)
  have r: "a < 5" "b < 64" "c < 64" "d < 64"
    using assms unfolding a_def b_def c_def d_def by simp_all
  have e0: "16 \<le> b" if "a = 0"
    using that assms(1) cp r by linarith
  have e4: "b < 16" if "a = 4"
    using that assms(2) cp r by linarith
  have h: "240 + a < 245" "\<not> 240 + a < 128" "\<not> 240 + a < 224" "\<not> 240 + a < 240"
    using r by simp_all
  have k: "cont (128 + b)" "cont (128 + c)" "cont (128 + d)"
    using r by (simp_all add: cont_def)
  have g0: "144 \<le> 128 + b" if "240 + a = 240"
    using that e0 by simp
  have g4: "128 + b < 144" if "240 + a = 244"
    using that e4 by simp
  have "utf8_decode ((240 + a) # (128 + b) # (128 + c) # (128 + d) # rest)
    = map_option (Cons (a * 262144 + b * 4096 + c * 64 + d)) (utf8_decode rest)"
    using h k g0 g4 by (simp del: add_numeral_left)
  then show ?thesis
    unfolding cp [symmetric] unfolding a_def b_def c_def d_def by simp
qed

lemma decode_encode_cp:
  assumes "encode_cp cp = Inr bs"
  shows "utf8_decode (bs @ rest) = map_option (Cons cp) (utf8_decode rest)"
proof -
  consider (1) "cp < 0x80" | (2) "0x80 \<le> cp" "cp < 0x800"
    | (3) "0x800 \<le> cp" "cp < 0x10000" | (4) "0x10000 \<le> cp"
    by linarith
  then show ?thesis
  proof cases
    case 1
    with assms have "bs = [cp]"
      by (simp add: encode_cp_def)
    with 1 show ?thesis
      using decode_1 [of cp rest] by simp
  next
    case 2
    with assms have "bs = [0xC0 + cp div 64, 0x80 + cp mod 64]"
      by (simp add: encode_cp_def)
    with 2 show ?thesis
      using decode_2 [of cp rest] by simp
  next
    case 3
    with assms have s: "\<not> (0xD800 \<le> cp \<and> cp \<le> 0xDFFF)"
      and "bs = [0xE0 + cp div 4096, 0x80 + (cp div 64) mod 64, 0x80 + cp mod 64]"
      by (auto simp: encode_cp_def split: if_splits)
    with 3 show ?thesis
      using decode_3 [of cp rest] by simp
  next
    case 4
    with assms have "cp < 0x110000"
      and "bs = [0xF0 + cp div 262144, 0x80 + (cp div 4096) mod 64, 0x80 + (cp div 64) mod 64,
             0x80 + cp mod 64]"
      by (auto simp: encode_cp_def split: if_splits)
    with 4 show ?thesis
      using decode_4 [of cp rest] by simp
  qed
qed

lemma utf8_roundtrip: "utf8_encode cps = Inr bs \<Longrightarrow> utf8_decode bs = Some cps"
proof (induction cps arbitrary: bs)
  case Nil
  then show ?case by simp
next
  case (Cons cp cps)
  from Cons.prems obtain b rest where b: "encode_cp cp = Inr b" and r: "utf8_encode cps = Inr rest"
    and bs: "bs = b @ rest"
    by (auto split: sum.splits)
  from Cons.IH [OF r] decode_encode_cp [OF b, of rest] bs show ?case
    by simp
qed

section \<open>Properties of the file system\<close>

subsection \<open>Lookups after a change\<close>

lemma lookup_single: "lookup (Dir es) [c] = map_of es c"
  by (simp split: option.splits)

lemma lookup_Dir_update_same:
  "lookup (Dir (AList.update c m es)) (c # cs) = lookup m cs"
  by (simp add: update_conv')

lemma lookup_Dir_update_other:
  "d \<noteq> c \<Longrightarrow> lookup (Dir (AList.update c m es)) (d # ps) = lookup (Dir es) (d # ps)"
  by (simp add: update_conv')

lemma lookup_Dir_delete_same: "lookup (Dir (AList.delete c es)) (c # cs) = None"
  by (simp add: delete_conv')

lemma lookup_Dir_delete_other:
  "d \<noteq> c \<Longrightarrow> lookup (Dir (AList.delete c es)) (d # ps) = lookup (Dir es) (d # ps)"
  by (simp add: delete_conv')

lemma alter_same:
  "alter f p fs = Inr fs' \<Longrightarrow> \<exists>r. f (lookup fs p) = Inr r \<and> lookup fs' p = r"
proof (induction f p fs arbitrary: fs' rule: alter.induct)
  case (1 f n)
  then show ?case by simp
next
  case (2 f c n)
  then show ?case
    by (auto simp: update_conv' delete_conv' split: node.splits sum.splits option.splits)
next
  case (3 f c v va n)
  from "3.prems" obtain es m m' where n: "n = Dir es" and m: "map_of es c = Some m"
    and a: "alter f (v # va) m = Inr m'" and fs': "fs' = Dir (AList.update c m' es)"
    by (auto split: node.splits option.splits sum.splits)
  from "3.IH" [OF n m a] obtain r where "f (lookup m (v # va)) = Inr r" "lookup m' (v # va) = r"
    by blast
  with n m fs' show ?case
    by (simp add: update_conv')
qed

lemma alter_other:
  "alter f p fs = Inr fs' \<Longrightarrow> \<not> prefix p p2 \<Longrightarrow> \<not> prefix p2 p \<Longrightarrow> lookup fs' p2 = lookup fs p2"
proof (induction f p fs arbitrary: fs' p2 rule: alter.induct)
  case (1 f n)
  then show ?case by simp
next
  case (2 f c n)
  from "2.prems" obtain d ps where p2: "p2 = d # ps" and d: "d \<noteq> c"
    by (cases p2) auto
  from "2.prems"(1) obtain es where n: "n = Dir es"
    by (auto split: node.splits)
  with "2.prems"(1) have "fs' = Dir (AList.delete c es) \<or> (\<exists>m. fs' = Dir (AList.update c m es))"
    by (auto split: sum.splits option.splits)
  with p2 d n show ?case
    by (auto simp: update_conv' delete_conv')
next
  case (3 f c v va n)
  from "3.prems" obtain es m m' where n: "n = Dir es" and m: "map_of es c = Some m"
    and a: "alter f (v # va) m = Inr m'" and fs': "fs' = Dir (AList.update c m' es)"
    by (auto split: node.splits option.splits sum.splits)
  from "3.prems" obtain d ps where p2: "p2 = d # ps"
    by (cases p2) auto
  show ?case
  proof (cases "d = c")
    case False
    with p2 n fs' show ?thesis by (simp add: update_conv')
  next
    case True
    with p2 "3.prems" have "\<not> prefix (v # va) ps" "\<not> prefix ps (v # va)"
      by auto
    from "3.IH" [OF n m a this] True p2 n m fs' show ?thesis
      by (simp add: update_conv')
  qed
qed

lemma lookup_above:
  "lookup fs p2 = Some n \<Longrightarrow> strict_prefix p p2 \<Longrightarrow> \<exists>es. lookup fs p = Some (Dir es)"
proof (induction p arbitrary: fs p2)
  case Nil
  then show ?case by (cases p2; cases fs) auto
next
  case (Cons c p)
  from Cons.prems obtain ps where p2: "p2 = c # ps" and sp: "strict_prefix p ps"
    by (cases p2) (auto simp: strict_prefix_def)
  with Cons.prems obtain es m where "fs = Dir es" "map_of es c = Some m" "lookup m ps = Some n"
    by (auto split: node.splits option.splits)
  with Cons.IH [OF _ sp] show ?case by simp
qed

lemma alter_above:
  "alter f p fs = Inr fs' \<Longrightarrow> strict_prefix p2 p \<Longrightarrow> \<exists>es. lookup fs p2 = Some (Dir es)"
proof (induction f p fs arbitrary: fs' p2 rule: alter.induct)
  case (1 f n)
  then show ?case by simp
next
  case (2 f c n)
  then have "p2 = []"
    by (cases p2) (auto simp: strict_prefix_def)
  with "2.prems" show ?case
    by (auto split: node.splits)
next
  case (3 f c v va n)
  from "3.prems" obtain es m m' where n: "n = Dir es" and m: "map_of es c = Some m"
    and a: "alter f (v # va) m = Inr m'"
    by (auto split: node.splits option.splits sum.splits)
  show ?case
  proof (cases p2)
    case Nil
    with n show ?thesis by simp
  next
    case (Cons d ps)
    with "3.prems" have "d = c" "strict_prefix ps (v # va)"
      by (auto simp: strict_prefix_def)
    with "3.IH" [OF n m a, of ps] Cons n m show ?thesis by simp
  qed
qed

lemma alter_keeps_file:
  assumes "alter f p fs = Inr fs'" and "lookup fs p2 = Some (File x)" and "\<not> prefix p p2"
  shows "lookup fs' p2 = Some (File x)"
proof (cases "prefix p2 p")
  case True
  with assms(3) have "strict_prefix p2 p"
    by (auto simp: strict_prefix_def)
  with assms(1,2) alter_above show ?thesis by fastforce
next
  case False
  with assms alter_other show ?thesis by metis
qed

lemma write_file_same: "write_file p d fs = Inr fs' \<Longrightarrow> lookup fs' p = Some (File d)"
  unfolding write_file_def
  by (drule alter_same) (auto split: option.splits node.splits)

lemma write_file_keeps_file:
  assumes "write_file p d fs = Inr fs'" and "lookup fs p2 = Some (File x)" and "p2 \<noteq> p"
  shows "lookup fs' p2 = Some (File x)"
proof (cases "prefix p p2")
  case True
  with assms(3) have "strict_prefix p p2"
    by (auto simp: strict_prefix_def)
  with assms(2) obtain es where "lookup fs p = Some (Dir es)"
    using lookup_above by blast
  with assms(1) show ?thesis
    unfolding write_file_def by (auto dest!: alter_same)
next
  case False
  with assms show ?thesis
    unfolding write_file_def using alter_keeps_file by blast
qed

lemma mkdirs_keeps_file:
  "mkdirs p fs = Inr fs' \<Longrightarrow> lookup fs p2 = Some (File x) \<Longrightarrow> lookup fs' p2 = Some (File x)"
proof (induction p arbitrary: fs fs' p2)
  case Nil
  then show ?case by (auto split: node.splits)
next
  case (Cons c p)
  from Cons.prems(1) obtain es m' where fs: "fs = Dir es"
    and mk: "mkdirs p (case map_of es c of None \<Rightarrow> Dir [] | Some m \<Rightarrow> m) = Inr m'"
    and fs': "fs' = Dir (AList.update c m' es)"
    by (auto split: node.splits sum.splits)
  show ?case
  proof (cases p2)
    case Nil
    with Cons.prems fs show ?thesis by simp
  next
    case (Cons d ps)
    show ?thesis
    proof (cases "d = c")
      case False
      with Cons fs fs' Cons.prems show ?thesis by (simp add: update_conv')
    next
      case True
      with Cons fs Cons.prems(2) obtain m where m: "map_of es c = Some m" "lookup m ps = Some (File x)"
        by (auto split: option.splits)
      with mk Cons.IH [of m m' ps] have "lookup m' ps = Some (File x)"
        by simp
      with True Cons fs' show ?thesis by (simp add: update_conv')
    qed
  qed
qed

lemma tmp_path_neq: "path \<noteq> [] \<Longrightarrow> tmp_path path \<noteq> path"
proof
  assume "path \<noteq> []" and "tmp_path path = path"
  then have "butlast path @ [last path @ ''.tmp''] = butlast path @ [last path]"
    by (simp add: tmp_path_def)
  then show False by simp
qed

lemma prefix_same_length: "prefix xs ys \<Longrightarrow> length xs = length ys \<Longrightarrow> xs = ys"
  by (auto elim!: prefixE)

lemma tmp_path_not_prefix:
  assumes "path \<noteq> []"
  shows "\<not> prefix (tmp_path path) path" and "\<not> prefix path (tmp_path path)"
proof -
  have l: "length (tmp_path path) = length path"
    using assms by (simp add: tmp_path_def)
  show "\<not> prefix (tmp_path path) path"
    using l tmp_path_neq [OF assms] prefix_same_length by blast
  show "\<not> prefix path (tmp_path path)"
    using l tmp_path_neq [OF assms] prefix_same_length by metis
qed

lemma os_replace_file:
  assumes r: "os_replace src dst fs = Inr fs'" and s: "lookup fs src = Some (File d)"
    and n1: "\<not> prefix src dst" and n2: "\<not> prefix dst src"
  shows "lookup fs' dst = Some (File d)"
proof -
  from n1 have ne: "src \<noteq> dst" by auto
  from n1 have nsp: "\<not> strict_prefix src dst" by (auto simp: strict_prefix_def)
  from r s ne nsp obtain fs1 where
    a1: "alter (\<lambda>old. case (File d, old) of
                         (File _, Some (Dir _)) \<Rightarrow> Inl IsADirectoryError
                       | (Dir _, Some (File _)) \<Rightarrow> Inl NotADirectoryError
                       | (Dir _, Some (Dir (_ # _))) \<Rightarrow> Inl OSError
                       | _ \<Rightarrow> Inr (Some (File d))) dst fs = Inr fs1"
    and a2: "alter (\<lambda>old. Inr None) src fs1 = Inr fs'"
    by (auto simp: os_replace_def split: sum.splits)
  from alter_same [OF a1] have l1: "lookup fs1 dst = Some (File d)"
    by (auto split: option.splits node.splits list.splits)
  from a2 l1 n1 show ?thesis
    by (rule alter_keeps_file)
qed

lemma os_replace_keeps_file:
  assumes r: "os_replace src dst fs = Inr fs'" and s: "lookup fs src = Some (File d)"
    and f: "lookup fs p2 = Some (File x)" and ne: "p2 \<noteq> src" "p2 \<noteq> dst"
  shows "lookup fs' p2 = Some (File x)"
proof (cases "src = dst")
  case True
  with r s f show ?thesis by (simp add: os_replace_def)
next
  case False
  from r s False obtain fs1 where
    a1: "alter (\<lambda>old. case (File d, old) of
                         (File _, Some (Dir _)) \<Rightarrow> Inl IsADirectoryError
                       | (Dir _, Some (File _)) \<Rightarrow> Inl NotADirectoryError
                       | (Dir _, Some (Dir (_ # _))) \<Rightarrow> Inl OSError
                       | _ \<Rightarrow> Inr (Some (File d))) dst fs = Inr fs1"
    and a2: "alter (\<lambda>old. Inr None) src fs1 = Inr fs'"
    by (auto simp: os_replace_def split: sum.splits if_splits)
  have nd: "\<not> prefix dst p2"
  proof
    assume "prefix dst p2"
    with ne have "strict_prefix dst p2" by (auto simp: strict_prefix_def)
    with f obtain es where "lookup fs dst = Some (Dir es)"
      using lookup_above by blast
    with alter_same [OF a1] show False by auto
  qed
  from a1 f nd have f1: "lookup fs1 p2 = Some (File x)"
    by (rule alter_keeps_file)
  have src1: "\<exists>y. lookup fs1 src = Some (File y)"
  proof (cases "prefix dst src")
    case True
    with False have "strict_prefix dst src" by (auto simp: strict_prefix_def)
    with s obtain es where "lookup fs dst = Some (Dir es)"
      using lookup_above by blast
    with alter_same [OF a1] show ?thesis by auto
  next
    case False
    with a1 s show ?thesis using alter_keeps_file by blast
  qed
  have ns: "\<not> prefix src p2"
  proof
    assume "prefix src p2"
    with ne have "strict_prefix src p2" by (auto simp: strict_prefix_def)
    with f1 obtain es where "lookup fs1 src = Some (Dir es)"
      using lookup_above by blast
    with src1 show False by auto
  qed
  from a2 f1 ns show ?thesis
    by (rule alter_keeps_file)
qed

lemma atomic_write_result:
  assumes "atomic_write path data fs = (Inr u, fs')"
  shows "lookup fs' path = Some (File data)"
proof -
  from assms obtain fs1 fs2 where ne: "path \<noteq> []"
    and w: "write_file (tmp_path path) data fs1 = Inr fs2"
    and r: "os_replace (tmp_path path) path fs2 = Inr fs'"
    by (auto simp: atomic_write_def split: sum.splits if_splits)
  from w have "lookup fs2 (tmp_path path) = Some (File data)"
    by (rule write_file_same)
  with r show ?thesis
    using tmp_path_not_prefix [OF ne] by (auto intro: os_replace_file)
qed

lemma atomic_write_keeps_file:
  assumes a: "atomic_write path data fs = (res, fs')" and f: "lookup fs p2 = Some (File x)"
    and nt: "p2 \<noteq> tmp_path path" and np: "p2 \<noteq> path \<or> (\<exists>e. res = Inl e)"
  shows "lookup fs' p2 = Some (File x)"
proof (cases "mkdirs (butlast path) fs")
  case (Inl e)
  with a f show ?thesis by (simp add: atomic_write_def)
next
  case (Inr fs1)
  then have f1: "lookup fs1 p2 = Some (File x)"
    using f by (rule mkdirs_keeps_file)
  show ?thesis
  proof (cases "path = []")
    case True
    with a Inr f1 show ?thesis by (simp add: atomic_write_def)
  next
    case False
    show ?thesis
    proof (cases "write_file (tmp_path path) data fs1")
      case (Inl e)
      with a Inr False f1 show ?thesis by (simp add: atomic_write_def)
    next
      case w: (Inr fs2)
      then have f2: "lookup fs2 p2 = Some (File x)"
        using f1 nt by (rule write_file_keeps_file)
      from w have t2: "lookup fs2 (tmp_path path) = Some (File data)"
        by (rule write_file_same)
      show ?thesis
      proof (cases "os_replace (tmp_path path) path fs2")
        case (Inl e)
        with a Inr False w f2 show ?thesis by (simp add: atomic_write_def)
      next
        case r: (Inr fs3)
        with a Inr False w have res: "res = Inr ()" and fs': "fs' = fs3"
          by (simp_all add: atomic_write_def)
        with np have "p2 \<noteq> path" by auto
        with r t2 f2 nt fs' show ?thesis
          using os_replace_keeps_file by blast
      qed
    qed
  qed
qed

subsection \<open>The jail\<close>

lemma target_src: "target env0 cfg0 ''src'' = Inr [''proj'', ''src'']"
  by code_simp

lemma target_nothing: "target env0 cfg0 ''nothing'' = Inr [''proj'', ''nothing'']"
  by code_simp

text \<open>
  C1 fails on the code. The jail compares the strings of the paths: with the root
  \<open>/proj\<close>, the relative path \<open>../proj2/secret.txt\<close> resolves to
  \<open>/proj2/secret.txt\<close>, which is not below the root and whose string starts with
  \<open>/proj\<close>. \<open>jail_path\<close> returns it, \<open>fs.write\<close> and \<open>fs.read\<close> take it as their target, and
  \<open>edit.apply\<close>, which makes the same comparison, overwrites the file outside the root.
\<close>

theorem jail_path_accepts_sibling:
  "jail_path [''proj''] ''../proj2/secret.txt'' = Inr [''proj2'', ''secret.txt''] \<and>
   \<not> prefix [''proj''] [''proj2'', ''secret.txt''] \<and>
   target env0 cfg0 ''../proj2/secret.txt'' = Inr [''proj2'', ''secret.txt''] \<and>
   fst (apply_unified_diff env0 cfg0 ''../proj2/secret.txt'' ''@@ -1 +1 @@\<newline>+x\<newline>'' fs0)
     = Applied ''../proj2/secret.txt'' \<and>
   lookup (snd (apply_unified_diff env0 cfg0 ''../proj2/secret.txt'' ''@@ -1 +1 @@\<newline>+x\<newline>'' fs0))
     [''proj2'', ''secret.txt''] = Some (File [120, 10])"
  by code_simp

subsection \<open>\<open>fs.delete\<close> of a missing path\<close>

text \<open>
  C9. For a relative path the jail allows, \<open>fs.delete\<close> of a path that does not exist
  returns \<open>{"ok": True}\<close> and leaves the file system as it is; and after a
  \<open>fs.delete\<close> that succeeded the path does not exist, so a second \<open>fs.delete\<close> of it
  returns the same result and the same file system.
\<close>

theorem delete_missing_is_ok:
  "target ev cfg rel = Inr p \<Longrightarrow>
   (lookup fs p = None \<longrightarrow> fs_delete ev cfg rel fs = (Inr OkDone, fs)) \<and>
   (fs_delete ev cfg rel fs = (Inr OkDone, fs') \<longrightarrow>
      lookup fs' p = None \<and> fs_delete ev cfg rel fs' = (Inr OkDone, fs'))"
proof (intro conjI impI)
  assume t: "target ev cfg rel = Inr p"
  have missing: "fs_delete ev cfg rel x = (Inr OkDone, x)" if "lookup x p = None" for x
    using t that by (simp add: fs_delete_def is_dir_def exists_path_def)
  show "fs_delete ev cfg rel fs = (Inr OkDone, fs)" if "lookup fs p = None"
    using that by (rule missing)
  assume d: "fs_delete ev cfg rel fs = (Inr OkDone, fs')"
  show gone: "lookup fs' p = None"
  proof (cases "is_dir fs p")
    case True
    with d t obtain u where "rmtree p fs = (Inr u, fs')"
      by (auto simp: fs_delete_def split: prod.splits sum.splits)
    then show ?thesis
      by (auto simp: rmtree_def split: if_splits sum.splits dest!: alter_same
          split: option.splits node.splits)
  next
    case False
    show ?thesis
    proof (cases "exists_path fs p")
      case True
      with d t False have "unlink p fs = Inr fs'"
        by (auto simp: fs_delete_def split: sum.splits)
      then show ?thesis
        by (auto simp: unlink_def dest!: alter_same split: option.splits node.splits)
    next
      case nex: False
      with d t False show ?thesis
        by (simp add: fs_delete_def exists_path_def)
    qed
  qed
  show "fs_delete ev cfg rel fs' = (Inr OkDone, fs')"
    using gone by (rule missing)
qed



theorem delete_missing_is_ok_witness:
  "target env0 cfg0 ''nothing'' = Inr [''proj'', ''nothing''] \<and>
   lookup fs0 [''proj'', ''nothing''] = None \<and>
   fs_delete env0 cfg0 ''nothing'' fs0 = (Inr OkDone, fs0) \<and>
   target env0 cfg0 ''src'' = Inr [''proj'', ''src''] \<and>
   fs_delete env0 cfg0 ''src'' fs0 = (Inr OkDone, fs0_less_src) \<and>
   lookup fs0_less_src [''proj'', ''src''] = None \<and>
   fs_delete env0 cfg0 ''src'' fs0_less_src = (Inr OkDone, fs0_less_src)"
proof -
  have n: "lookup fs0 [''proj'', ''nothing''] = None"
    by code_simp
  have d: "fs_delete env0 cfg0 ''src'' fs0 = (Inr OkDone, fs0_less_src)"
    by code_simp
  from delete_missing_is_ok [OF target_nothing, of fs0] n
  have 1: "fs_delete env0 cfg0 ''nothing'' fs0 = (Inr OkDone, fs0)"
    by blast
  from delete_missing_is_ok [OF target_src, of fs0 fs0_less_src] d
  have 2: "lookup fs0_less_src [''proj'', ''src''] = None \<and>
    fs_delete env0 cfg0 ''src'' fs0_less_src = (Inr OkDone, fs0_less_src)"
    by blast
  from n d 1 2 target_nothing target_src show ?thesis
    by blast
qed

subsection \<open>\<open>edit.apply\<close> on an empty reconstruction\<close>

lemma apply_refused:
  assumes "\<And>old. patch old d = None"
  shows "snd (apply_unified_diff ev cfg f d fs) = fs \<and>
    fst (apply_unified_diff ev cfg f d fs) \<in> {PermissionDenied, ApplyFailed IsADirectoryError, ParseFailed} \<and>
    (startswith (str_of_path (resolve (joinpath (project_root cfg) f))) (str_of_path (project_root cfg)) \<and>
     \<not> is_dir fs (resolve (joinpath (project_root cfg) f))
       \<longrightarrow> fst (apply_unified_diff ev cfg f d fs) = ParseFailed)"
  using assms
  by (auto simp: apply_unified_diff_def Let_def is_dir_def exists_path_def
      split: option.splits node.splits)

lemma apply_empty:
  assumes p: "\<And>old. patch old d = Some []"
  shows "fst (apply_unified_diff ev cfg f d fs) \<noteq> ParseFailed \<and>
    (fst (apply_unified_diff ev cfg f d fs) = Applied f \<longrightarrow>
       lookup (snd (apply_unified_diff ev cfg f d fs)) (resolve (joinpath (project_root cfg) f))
         = Some (File []))"
proof -
  let ?t = "resolve (joinpath (project_root cfg) f)"
  have 1: "fst (apply_unified_diff ev cfg f d fs) \<noteq> ParseFailed"
    by (auto simp: apply_unified_diff_def Let_def p split: option.splits node.splits prod.splits sum.splits)
  have 2: "lookup (snd (apply_unified_diff ev cfg f d fs)) ?t = Some (File [])"
    if a: "fst (apply_unified_diff ev cfg f d fs) = Applied f"
  proof -
    from a obtain fs1 fs2 u where "atomic_write ?t [] fs1 = (Inr u, fs2)"
      and "snd (apply_unified_diff ev cfg f d fs) = fs2"
      by (auto simp: apply_unified_diff_def Let_def p
          split: option.splits node.splits prod.splits sum.splits if_splits)
    then show ?thesis
      using atomic_write_result by simp
  qed
  from 1 2 show ?thesis by blast
qed

text \<open>
  C10. A diff text with a line that starts with \<open>@@\<close>, whose lines from that line on
  classify to no output line, is accepted: \<open>_patch\<close> returns the empty list,
  \<open>edit.apply\<close> does not report a parse failure, and when it succeeds the target is an
  empty file. A non-empty diff text with no such line, whose lines classify to no output
  line, is refused: \<open>_patch\<close> returns \<open>None\<close>, \<open>edit.apply\<close> returns an error and
  leaves the file system as it is, and the error is the parse failure whenever the target
  passes the check of the root and is not a directory.
\<close>

theorem empty_reconstruction_asymmetry:
  "(list_ex (\<lambda>l. startswith l ''@@'') (readlines d) \<and>
    rebuild (dropWhile (\<lambda>l. \<not> startswith l ''@@'') (readlines d)) [] = [] \<longrightarrow>
      patch old d = Some [] \<and>
      fst (apply_unified_diff ev cfg f d fs) \<noteq> ParseFailed \<and>
      (fst (apply_unified_diff ev cfg f d fs) = Applied f \<longrightarrow>
         lookup (snd (apply_unified_diff ev cfg f d fs)) (resolve (joinpath (project_root cfg) f))
           = Some (File []))) \<and>
   (d \<noteq> [] \<and> \<not> list_ex (\<lambda>l. startswith l ''@@'') (readlines d) \<and> rebuild (readlines d) [] = [] \<longrightarrow>
      patch old d = None \<and>
      snd (apply_unified_diff ev cfg f d fs) = fs \<and>
      fst (apply_unified_diff ev cfg f d fs)
        \<in> {PermissionDenied, ApplyFailed IsADirectoryError, ParseFailed} \<and>
      (startswith (str_of_path (resolve (joinpath (project_root cfg) f))) (str_of_path (project_root cfg)) \<and>
       \<not> is_dir fs (resolve (joinpath (project_root cfg) f))
         \<longrightarrow> fst (apply_unified_diff ev cfg f d fs) = ParseFailed))"
proof (intro conjI impI)
  assume h: "list_ex (\<lambda>l. startswith l ''@@'') (readlines d) \<and>
    rebuild (dropWhile (\<lambda>l. \<not> startswith l ''@@'') (readlines d)) [] = []"
  then have p: "patch old' d = Some []" for old'
    by (simp add: patch_with_hunk)
  show "patch old d = Some []"
    by (rule p)
  show "fst (apply_unified_diff ev cfg f d fs) \<noteq> ParseFailed"
    using apply_empty [of d ev cfg f fs] p by blast
  show "lookup (snd (apply_unified_diff ev cfg f d fs)) (resolve (joinpath (project_root cfg) f))
      = Some (File [])" if "fst (apply_unified_diff ev cfg f d fs) = Applied f"
    using apply_empty [of d ev cfg f fs] p that by blast
next
  assume h: "d \<noteq> [] \<and> \<not> list_ex (\<lambda>l. startswith l ''@@'') (readlines d) \<and> rebuild (readlines d) [] = []"
  then have p: "patch old' d = None" for old'
    by (simp add: patch_without_hunk)
  show "patch old d = None"
    by (rule p)
  show "snd (apply_unified_diff ev cfg f d fs) = fs"
    using apply_refused [of d ev cfg f fs] p by blast
  show "fst (apply_unified_diff ev cfg f d fs)
      \<in> {PermissionDenied, ApplyFailed IsADirectoryError, ParseFailed}"
    using apply_refused [of d ev cfg f fs] p by blast
  show "fst (apply_unified_diff ev cfg f d fs) = ParseFailed"
    if "startswith (str_of_path (resolve (joinpath (project_root cfg) f))) (str_of_path (project_root cfg)) \<and>
       \<not> is_dir fs (resolve (joinpath (project_root cfg) f))"
    using apply_refused [of d ev cfg f fs] p that by blast
qed

theorem empty_reconstruction_asymmetry_witness:
  "list_ex (\<lambda>l. startswith l ''@@'') (readlines hunk_deleting) \<and>
   rebuild (dropWhile (\<lambda>l. \<not> startswith l ''@@'') (readlines hunk_deleting)) [] = [] \<and>
   patch [] hunk_deleting = Some [] \<and>
   fst (apply_unified_diff env0 cfg0 ''a.txt'' hunk_deleting fs0) = Applied ''a.txt'' \<and>
   lookup (snd (apply_unified_diff env0 cfg0 ''a.txt'' hunk_deleting fs0)) [''proj'', ''a.txt'']
     = Some (File []) \<and>
   bare_deleting \<noteq> [] \<and>
   \<not> list_ex (\<lambda>l. startswith l ''@@'') (readlines bare_deleting) \<and>
   rebuild (readlines bare_deleting) [] = [] \<and>
   patch [] bare_deleting = None \<and>
   startswith (str_of_path (resolve (joinpath (project_root cfg0) ''a.txt''))) (str_of_path (project_root cfg0)) \<and>
   \<not> is_dir fs0 (resolve (joinpath (project_root cfg0) ''a.txt'')) \<and>
   apply_unified_diff env0 cfg0 ''a.txt'' bare_deleting fs0 = (ParseFailed, fs0)"
proof -
  have h1: "list_ex (\<lambda>l. startswith l ''@@'') (readlines hunk_deleting) \<and>
    rebuild (dropWhile (\<lambda>l. \<not> startswith l ''@@'') (readlines hunk_deleting)) [] = []"
    by code_simp
  have h2: "bare_deleting \<noteq> [] \<and> \<not> list_ex (\<lambda>l. startswith l ''@@'') (readlines bare_deleting) \<and>
    rebuild (readlines bare_deleting) [] = []"
    by code_simp
  have h3: "startswith (str_of_path (resolve (joinpath (project_root cfg0) ''a.txt''))) (str_of_path (project_root cfg0)) \<and>
    \<not> is_dir fs0 (resolve (joinpath (project_root cfg0) ''a.txt''))"
    by code_simp
  have r: "resolve (joinpath (project_root cfg0) ''a.txt'') = [''proj'', ''a.txt'']"
    by code_simp
  have a: "fst (apply_unified_diff env0 cfg0 ''a.txt'' hunk_deleting fs0) = Applied ''a.txt''"
    by code_simp
  from empty_reconstruction_asymmetry [of hunk_deleting "[]" env0 cfg0 "''a.txt''" fs0] h1 a r
  have 1: "patch [] hunk_deleting = Some [] \<and>
    lookup (snd (apply_unified_diff env0 cfg0 ''a.txt'' hunk_deleting fs0)) [''proj'', ''a.txt'']
      = Some (File [])"
    by simp
  from empty_reconstruction_asymmetry [of bare_deleting "[]" env0 cfg0 "''a.txt''" fs0] h2 h3
  have 2: "patch [] bare_deleting = None \<and>
    snd (apply_unified_diff env0 cfg0 ''a.txt'' bare_deleting fs0) = fs0 \<and>
    fst (apply_unified_diff env0 cfg0 ''a.txt'' bare_deleting fs0) = ParseFailed"
    by blast
  then have 3: "apply_unified_diff env0 cfg0 ''a.txt'' bare_deleting fs0 = (ParseFailed, fs0)"
    by (metis prod.collapse)
  from h1 h2 h3 a 1 2 3 show ?thesis
    by blast
qed

subsection \<open>\<open>fs.write\<close> followed by \<open>fs.read\<close>\<close>

lemma fs_write_success:
  assumes "fs_write ev cfg rel content backup fs = (Inr r, fs')"
  shows "\<exists>path data. target ev cfg rel = Inr path \<and> utf8_encode content = Inr data \<and>
    lookup fs' path = Some (File data) \<and> r = OkPath rel"
proof -
  from assms obtain path data fs1 u where "target ev cfg rel = Inr path"
    "utf8_encode content = Inr data" "atomic_write path data fs1 = (Inr u, fs')" "r = OkPath rel"
    by (auto simp: fs_write_def split: sum.splits prod.splits if_splits)
  then show ?thesis
    using atomic_write_result by blast
qed

text \<open>
  C5. After a \<open>fs.write\<close> of the content \<open>C\<close> that succeeded, \<open>fs.read\<close> of the same
  relative path, from the start and without a length, returns the text \<open>C\<close> in mode
  \<open>text\<close>, when the UTF-8 encoding of \<open>C\<close> is no longer than \<open>max_read_bytes\<close>.
\<close>

theorem write_then_read:
  "fs_write ev cfg rel content backup fs = (Inr r, fs') \<Longrightarrow>
   utf8_encode content = Inr data \<Longrightarrow> int (length data) \<le> max_read_bytes cfg \<Longrightarrow>
   fs_read ev cfg rel 0 None fs' = Inr \<lparr>reply_mode = ''text'', reply_content = content\<rparr>"
proof -
  assume w: "fs_write ev cfg rel content backup fs = (Inr r, fs')"
    and e: "utf8_encode content = Inr data"
    and m: "int (length data) \<le> max_read_bytes cfg"
  from fs_write_success [OF w] e obtain path where t: "target ev cfg rel = Inr path"
    and l: "lookup fs' path = Some (File data)"
    by auto
  from t l have c: "check_file ev cfg rel fs' = Inr path"
    by (simp add: check_file_def is_file_def)
  from l have b: "file_bytes fs' path = data"
    by (simp add: file_bytes_def)
  from m have n: "\<not> max_read_bytes cfg < - 1" "max_read_bytes cfg \<noteq> - 1"
    "take (nat (max_read_bytes cfg)) data = data"
    by auto
  from e have "utf8_decode data = Some content"
    by (rule utf8_roundtrip)
  with c b n show ?thesis
    by (simp add: fs_read_def)
qed


lemma enc_demo: "utf8_encode [119, 8364] = Inr [119, 226, 130, 172]"
  by (simp add: encode_cp_def)

lemma target_new: "target env0 cfg0 ''new/x.txt'' = Inr [''proj'', ''new'', ''x.txt'']"
  by code_simp

lemma new_absent: "\<not> exists_path fs0 [''proj'', ''new'', ''x.txt'']"
  by code_simp

lemma atomic_write_demo: "atomic_write [''proj'', ''new'', ''x.txt''] [119, 226, 130, 172] fs0 = (Inr (), fs0_written)"
  by code_simp


theorem write_then_read_witness:
  "fs_write env0 cfg0 ''new/x.txt'' [119, 8364] True fs0 = (Inr (OkPath ''new/x.txt''), fs0_written) \<and>
   utf8_encode [119, 8364] = Inr [119, 226, 130, 172] \<and>
   int (length [119, 226, 130, 172 :: nat]) \<le> max_read_bytes cfg0 \<and>
   fs_read env0 cfg0 ''new/x.txt'' 0 None fs0_written
     = Inr \<lparr>reply_mode = ''text'', reply_content = [119, 8364]\<rparr>"
proof -
  have w: "fs_write env0 cfg0 ''new/x.txt'' [119, 8364] True fs0 = (Inr (OkPath ''new/x.txt''), fs0_written)"
    by (simp add: fs_write_def target_new new_absent enc_demo atomic_write_demo
        del: utf8_encode.simps)
  have m: "int (length [119, 226, 130, 172 :: nat]) \<le> max_read_bytes cfg0"
    by (simp add: cfg0_def)
  from write_then_read [OF w enc_demo m] w enc_demo m show ?thesis
    by blast
qed

subsection \<open>\<open>fs.write\<close> with a backup\<close>

lemma copy2_result:
  assumes c: "copy2 src dst fs = Inr (cp, fs')" and s: "lookup fs src = Some (File d)"
  shows "lookup fs' cp = Some (File d) \<and> lookup fs' src = Some (File d) \<and> cp \<noteq> src \<and>
    (cp = dst \<or> cp = dst @ [basename src])"
proof -
  define t where "t = (if is_dir fs dst \<and> basename src \<noteq> [] then dst @ [basename src] else dst)"
  from s have ex: "exists_path fs src"
    by (simp add: exists_path_def)
  have c': "copy2 src dst fs =
      (if t = src \<and> exists_path fs src then Inl SameFileError
       else (case write_file t d fs of Inl e \<Rightarrow> Inl e | Inr fs' \<Rightarrow> Inr (t, fs')))"
    unfolding copy2_def t_def Let_def using s by simp
  from c have eq: "(if t = src \<and> exists_path fs src then Inl SameFileError
       else (case write_file t d fs of Inl e \<Rightarrow> Inl e | Inr fs' \<Rightarrow> Inr (t, fs'))) = Inr (cp, fs')"
    unfolding c' .
  have ne: "t \<noteq> src"
  proof
    assume "t = src"
    with eq ex show False by simp
  qed
  with eq have eq2: "(case write_file t d fs of Inl e \<Rightarrow> Inl e | Inr fs' \<Rightarrow> Inr (t, fs')) = Inr (cp, fs')"
    by simp
  then have w: "write_file t d fs = Inr fs'" and cp: "cp = t"
    by (auto split: sum.splits)
  from w have 1: "lookup fs' t = Some (File d)"
    by (rule write_file_same)
  from ne have "src \<noteq> t" by simp
  with w s have 2: "lookup fs' src = Some (File d)"
    by (rule write_file_keeps_file)
  have 3: "t = dst \<or> t = dst @ [basename src]"
    by (simp add: t_def)
  from 1 2 3 ne cp show ?thesis
    by simp
qed

lemma backup_file_result:
  assumes b: "backup_file ev (Some bd) path fs = (r, fs1)" and s: "lookup fs path = Some (File c0)"
  shows "lookup fs1 path = Some (File c0) \<and>
    ((\<exists>t. r = Inr t) \<longrightarrow>
       (\<exists>cp. cp \<noteq> path \<and> lookup fs1 cp = Some (File c0) \<and>
          (cp = backup_target ev bd path \<or> cp = backup_target ev bd path @ [basename path])))"
proof (cases "mkdirs bd fs")
  case (Inl e)
  with b s show ?thesis by (auto simp: backup_file_def)
next
  case (Inr fsm)
  then have sm: "lookup fsm path = Some (File c0)"
    using s by (rule mkdirs_keeps_file)
  show ?thesis
  proof (cases "copy2 path (backup_target ev bd path) fsm")
    case (Inl e)
    with b Inr sm show ?thesis by (auto simp: backup_file_def)
  next
    case c: (Inr res)
    obtain cp fs2 where res: "res = (cp, fs2)"
      by (cases res)
    with b Inr c have fs1: "fs1 = fs2"
      by (auto simp: backup_file_def)
    from c res copy2_result [of path "backup_target ev bd path" fsm cp fs2 c0] sm fs1
    show ?thesis by auto
  qed
qed


lemma backup_not_tmp:
  assumes "path \<noteq> []"
  shows "backup_target ev bd path \<noteq> tmp_path path"
    and "backup_target ev bd path @ [basename path] \<noteq> tmp_path path"
proof -
  have l: "last (tmp_path path) = last path @ ''.tmp''"
    by (simp add: tmp_path_def)
  show "backup_target ev bd path \<noteq> tmp_path path"
  proof
    assume "backup_target ev bd path = tmp_path path"
    then have "last (backup_target ev bd path) = last (tmp_path path)"
      by simp
    then have "length (last (backup_target ev bd path)) = length (last path @ ''.tmp'')"
      by (simp only: l)
    with assms show False
      by (simp add: backup_target_def basename_def)
  qed
  show "backup_target ev bd path @ [basename path] \<noteq> tmp_path path"
  proof
    assume "backup_target ev bd path @ [basename path] = tmp_path path"
    then have "last (backup_target ev bd path @ [basename path]) = last (tmp_path path)"
      by simp
    then have "length (basename path) = length (last path @ ''.tmp'')"
      by (simp only: l last_snoc)
    with assms show False
      by (simp add: basename_def)
  qed
qed


lemma fs_write_backup_unfold:
  assumes "target ev cfg rel = Inr path" and "lookup fs path = Some n"
  shows "fs_write ev cfg rel content True fs =
    (case backup_file ev (backup_dir cfg) path fs of
       (Inl e, fs1) \<Rightarrow> (Inl e, fs1)
     | (Inr b, fs1) \<Rightarrow>
         (case utf8_encode content of
            Inl e \<Rightarrow> (Inl e, fs1)
          | Inr data \<Rightarrow>
              (case atomic_write path data fs1 of
                 (Inl e, fs2) \<Rightarrow> (Inl e, fs2)
               | (Inr u, fs2) \<Rightarrow> (Inr (OkPath rel), fs2))))"
  using assms by (simp add: fs_write_def exists_path_def split: prod.splits sum.splits)

text \<open>
  C2. Let the jail allow the path and let it hold the content \<open>C0\<close>; consider
  \<open>fs.write\<close> with \<open>backup=True\<close>. If \<open>backup_file\<close> raises, \<open>fs.write\<close> raises the
  same exception, nothing is written after it, and the path still holds \<open>C0\<close>. If
  \<open>fs.write\<close> succeeds, \<open>backup_file\<close> succeeded before it, in a state where the path
  still held \<open>C0\<close> and a copy held \<open>C0\<close> as well, and at the end the copy holds \<open>C0\<close>
  and the path holds the encoded new content. In every outcome \<open>C0\<close> is either
  still at the path or in a copy beside it.
\<close>

theorem write_backs_up_first:
  assumes t: "target ev cfg rel = Inr path" and s: "lookup fs path = Some (File c0)"
    and w: "fs_write ev cfg rel content True fs = (res, fs')"
  shows "(\<forall>e fs1. backup_file ev (backup_dir cfg) path fs = (Inl e, fs1) \<longrightarrow>
            res = Inl e \<and> fs' = fs1 \<and> lookup fs' path = Some (File c0)) \<and>
         ((\<exists>r. res = Inr r) \<longrightarrow>
            (\<exists>b fs1 cp data. backup_file ev (backup_dir cfg) path fs = (Inr b, fs1) \<and>
               lookup fs1 path = Some (File c0) \<and> lookup fs1 cp = Some (File c0) \<and> cp \<noteq> path \<and>
               lookup fs' cp = Some (File c0) \<and>
               utf8_encode content = Inr data \<and> lookup fs' path = Some (File data))) \<and>
         (lookup fs' path = Some (File c0) \<or>
            (\<exists>cp. cp \<noteq> path \<and> lookup fs' cp = Some (File c0)))"
proof -
  obtain rb fs1 where b: "backup_file ev (backup_dir cfg) path fs = (rb, fs1)"
    by (cases "backup_file ev (backup_dir cfg) path fs")
  note u = fs_write_backup_unfold [OF t s, of content]
  have keep1: "lookup fs1 path = Some (File c0)"
  proof (cases "backup_dir cfg")
    case None
    with b s show ?thesis by (simp add: backup_file_def)
  next
    case (Some bd)
    with b s backup_file_result [of ev bd path fs rb fs1 c0] show ?thesis by simp
  qed
  show ?thesis
  proof (cases rb)
    case (Inl e)
    with b u w have "res = Inl e" "fs' = fs1"
      by simp_all
    with b Inl keep1 show ?thesis
      by simp
  next
    case (Inr tb)
    with b obtain bd where bd: "backup_dir cfg = Some bd"
      by (cases "backup_dir cfg") (auto simp: backup_file_def)
    have ne: "path \<noteq> []"
    proof
      assume "path = []"
      with s have "fs = File c0" by simp
      then have "mkdirs bd fs = Inl FileExistsError \<or> mkdirs bd fs = Inl NotADirectoryError"
        by (cases bd) simp_all
      with b bd Inr show False
        by (auto simp: backup_file_def)
    qed
    from b bd Inr s backup_file_result [of ev bd path fs rb fs1 c0]
    obtain cp where cp: "cp \<noteq> path" "lookup fs1 cp = Some (File c0)"
      "cp = backup_target ev bd path \<or> cp = backup_target ev bd path @ [basename path]"
      by auto
    from cp(3) backup_not_tmp [OF ne, of ev bd] have nt: "cp \<noteq> tmp_path path"
      by auto
    show ?thesis
    proof (cases "utf8_encode content")
      case (Inl e)
      with b Inr u w have "res = Inl e" "fs' = fs1"
        by simp_all
      with b Inr keep1 show ?thesis
        by simp
    next
      case enc: (Inr data)
      obtain r2 fs2 where a: "atomic_write path data fs1 = (r2, fs2)"
        by (cases "atomic_write path data fs1")
      from a cp(2) nt have c2: "lookup fs2 cp = Some (File c0)"
        by (rule atomic_write_keeps_file) (simp add: cp(1))
      show ?thesis
      proof (cases r2)
        case (Inl e)
        with b Inr enc a u w have "res = Inl e" "fs' = fs2"
          by simp_all
        with b Inr c2 cp(1) show ?thesis
          by auto
      next
        case r: (Inr x)
        with b Inr enc a u w have res: "res = Inr (OkPath rel)" and fs': "fs' = fs2"
          by simp_all
        from a r have "lookup fs2 path = Some (File data)"
          using atomic_write_result by simp
        with b Inr enc res fs' keep1 cp c2 show ?thesis
          by auto
      qed
    qed
  qed
qed

lemma write_demo: "fs_write env0 cfg0 ''a.txt'' [119, 111, 114, 108, 100] True fs0
    = (Inr (OkPath ''a.txt''), fs0_overwritten)"
  by code_simp

lemma write_bad_backup_demo: "fs_write env0 cfg_bad_backup ''a.txt'' [119, 111, 114, 108, 100] True fs0
    = (Inl FileExistsError, fs0)"
  by code_simp


lemma target_a: "target env0 cfg0 ''a.txt'' = Inr [''proj'', ''a.txt'']"
  by code_simp

lemma target_a_bad: "target env0 cfg_bad_backup ''a.txt'' = Inr [''proj'', ''a.txt'']"
  by code_simp

lemma lookup_a: "lookup fs0 [''proj'', ''a.txt''] = Some (File [104, 101, 108, 108, 111])"
  by code_simp

theorem write_backs_up_first_witness:
  "target env0 cfg0 ''a.txt'' = Inr [''proj'', ''a.txt''] \<and>
   lookup fs0 [''proj'', ''a.txt''] = Some (File [104, 101, 108, 108, 111]) \<and>
   fs_write env0 cfg0 ''a.txt'' [119, 111, 114, 108, 100] True fs0
     = (Inr (OkPath ''a.txt''), fs0_overwritten) \<and>
   lookup fs0_overwritten [''proj'', ''.ai_agent_backups'', ''a.txt.20240101-120000.0a1b2c3d.bak'']
     = Some (File [104, 101, 108, 108, 111]) \<and>
   lookup fs0_overwritten [''proj'', ''a.txt''] = Some (File [119, 111, 114, 108, 100]) \<and>
   target env0 cfg_bad_backup ''a.txt'' = Inr [''proj'', ''a.txt''] \<and>
   backup_file env0 (backup_dir cfg_bad_backup) [''proj'', ''a.txt''] fs0 = (Inl FileExistsError, fs0) \<and>
   fs_write env0 cfg_bad_backup ''a.txt'' [119, 111, 114, 108, 100] True fs0
     = (Inl FileExistsError, fs0)"
proof -
  have b: "backup_file env0 (backup_dir cfg_bad_backup) [''proj'', ''a.txt''] fs0
      = (Inl FileExistsError, fs0)"
    by code_simp
  have l: "lookup fs0_overwritten [''proj'', ''.ai_agent_backups'', ''a.txt.20240101-120000.0a1b2c3d.bak'']
      = Some (File [104, 101, 108, 108, 111])"
    by code_simp
  from write_backs_up_first [OF target_a lookup_a write_demo]
  have 1: "lookup fs0_overwritten [''proj'', ''a.txt''] = Some (File [119, 111, 114, 108, 100])"
    by (auto simp: encode_cp_def)
  from write_backs_up_first [OF target_a_bad lookup_a write_bad_backup_demo] b
  have 2: "lookup fs0 [''proj'', ''a.txt''] = Some (File [104, 101, 108, 108, 111])"
    by blast
  from 1 2 b l target_a target_a_bad write_demo write_bad_backup_demo show ?thesis
    by blast
qed

subsection \<open>\<open>fs.tree\<close> at depth 0\<close>

















end
